theory Spec2Isabelle
  imports Complex_Main "HOL-Library.Word" "HOL-Library.Signed_Division"
begin

unbundle bit_operations_syntax

section \<open>Block cache (filesys/inode.c)\<close>

subsection \<open>Data model\<close>

type_synonym disk_sector_t = "32 word"
type_synonym byte = "8 word"
type_synonym off_t = int

text \<open>
  Modelled from the spec: the constant \<open>DISK_SECTOR_SIZE\<close> of devices/disk.h, the
  transfer unit of the raw device (512 bytes in the reference system).
\<close>

definition DISK_SECTOR_SIZE :: nat where
  "DISK_SECTOR_SIZE = 512"

text \<open>
  The value \<open>-1\<close> stored in the \<open>sector\<close> field of a slot by \<open>inode_init\<close> and
  returned by \<open>byte_to_sector\<close> for "no sector"; as a \<open>disk_sector_t\<close> it is
  \<open>0xFFFFFFFF\<close>.
\<close>

definition NO_SECTOR :: disk_sector_t where
  "NO_SECTOR = - 1"

text \<open>\<open>struct BC\<close>: one cache slot. The per-slot lock has no single-threaded content.\<close>

record BC =
  buffer :: "byte list"
  sector :: disk_sector_t
  alloc :: bool
  access :: bool
  dirty :: bool

text \<open>\<open>struct inode_disk\<close> and \<open>struct inode\<close>.\<close>

record inode_disk =
  start :: disk_sector_t
  length_bytes :: off_t
  magic :: "32 word"

record inode =
  i_sector :: disk_sector_t
  open_cnt :: int
  removed :: bool
  deny_write_cnt :: int
  data :: inode_disk

text \<open>
  What the external collaborators observe, in call order: releases handed to the
  free-space allocator, and \<open>free\<close> of an in-memory inode.
\<close>

datatype event = FreeMapRelease disk_sector_t nat | FreeInode nat

text \<open>
  The file-scope state of inode.c: the slot pool \<open>BClist[64]\<close>, the eviction cursor,
  the device \<open>filesys_disk\<close> (sector number to sector contents), the list
  \<open>open_inodes\<close> (pointers to in-memory inodes, front first) with the heap cells they
  point to, and the trace of external events.
\<close>

record fs =
  BClist :: "BC list"
  next_BC_to_evict :: nat
  filesys_disk :: "disk_sector_t \<Rightarrow> byte list"
  open_inodes :: "nat list"
  inode_heap :: "nat \<rightharpoonup> inode"
  trace :: "event list"

text \<open>
  Modelled from the spec: the raw storage primitive (devices/disk.c), which transfers
  exactly one sector and is assumed infallible.
\<close>

definition disk_read :: "(disk_sector_t \<Rightarrow> byte list) \<Rightarrow> disk_sector_t \<Rightarrow> byte list" where
  "disk_read d sec_no = d sec_no"

definition disk_write ::
  "(disk_sector_t \<Rightarrow> byte list) \<Rightarrow> disk_sector_t \<Rightarrow> byte list \<Rightarrow> (disk_sector_t \<Rightarrow> byte list)" where
  "disk_write d sec_no buf = d(sec_no := buf)"

text \<open>
  \<open>inode_init\<close>. The buffers come from \<open>malloc\<close> and are not cleared: their initial
  contents are the parameter \<open>garbage\<close>.
\<close>

definition inode_init :: "(nat \<Rightarrow> byte list) \<Rightarrow> (disk_sector_t \<Rightarrow> byte list) \<Rightarrow> fs" where
  "inode_init garbage d =
     \<lparr> BClist = map (\<lambda>i. \<lparr> buffer = garbage i, sector = NO_SECTOR, alloc = False,
                            access = False, dirty = False \<rparr>) [0..<64],
       next_BC_to_evict = 0,
       filesys_disk = d,
       open_inodes = [],
       inode_heap = Map.empty,
       trace = [] \<rparr>"

subsection \<open>The hit scan and the claim loops\<close>

text \<open>The \<open>for\<close> loop at the head of \<open>_disk_read\<close> and \<open>_disk_write\<close>: first slot, in pool
  order, whose \<open>sector\<close> field equals the request. The \<open>alloc\<close> flag is not consulted.\<close>

fun hit_scan :: "BC list \<Rightarrow> disk_sector_t \<Rightarrow> nat \<Rightarrow> nat option" where
  "hit_scan [] sec_no i = None"
| "hit_scan (bc # bcs) sec_no i = (if sector bc = sec_no then Some i else hit_scan bcs sec_no (Suc i))"

text \<open>One iteration of a \<open>while (true)\<close> claim loop: a slot is claimed, or the slot at the
  cursor is skipped, or the cursor indexes outside the pool (undefined in C).\<close>

datatype claim = Claimed nat fs | Skipped fs | Stuck

definition read_claim_step :: "fs \<Rightarrow> disk_sector_t \<Rightarrow> claim" where
  "read_claim_step st sec_no =
     (let c = next_BC_to_evict st in
      if length (BClist st) \<le> c then Stuck
      else
        let bc = BClist st ! c;
            st1 = st\<lparr>next_BC_to_evict := (c + 1) mod 64\<rparr>
        in
          if \<not> alloc bc then
            Claimed c (st1\<lparr>BClist := (BClist st)[c := bc\<lparr>buffer := disk_read (filesys_disk st) sec_no,
                              sector := sec_no, alloc := True, access := False, dirty := False\<rparr>]\<rparr>)
          else if \<not> access bc then
            let d = (if dirty bc then disk_write (filesys_disk st) (sector bc) (buffer bc)
                     else filesys_disk st)
            in Claimed c (st1\<lparr>filesys_disk := d,
                               BClist := (BClist st)[c := bc\<lparr>buffer := disk_read d sec_no,
                                 sector := sec_no, alloc := True, access := False, dirty := False\<rparr>]\<rparr>)
          else Skipped (st1\<lparr>BClist := (BClist st)[c := bc\<lparr>access := False\<rparr>]\<rparr>))"

definition write_claim_step :: "fs \<Rightarrow> disk_sector_t \<Rightarrow> claim" where
  "write_claim_step st sec_no =
     (let c = next_BC_to_evict st in
      if length (BClist st) \<le> c then Stuck
      else
        let bc = BClist st ! c;
            st1 = st\<lparr>next_BC_to_evict := (c + 1) mod 64\<rparr>
        in
          if \<not> alloc bc then
            Claimed c (st1\<lparr>BClist := (BClist st)[c := bc\<lparr>buffer := disk_read (filesys_disk st) sec_no,
                              dirty := True\<rparr>]\<rparr>)
          else if \<not> access bc then
            let d = (if dirty bc then disk_write (filesys_disk st) (sector bc) (buffer bc)
                     else filesys_disk st)
            in Claimed c (st1\<lparr>filesys_disk := d,
                               BClist := (BClist st)[c := bc\<lparr>buffer := disk_read d sec_no,
                                 dirty := True\<rparr>]\<rparr>)
          else Skipped (st1\<lparr>BClist := (BClist st)[c := bc\<lparr>access := False\<rparr>]\<rparr>))"

text \<open>Number of slots that a claim loop would skip: allocated with the access flag set.\<close>

definition referenced :: "fs \<Rightarrow> nat" where
  "referenced st = length (filter (\<lambda>bc. alloc bc \<and> access bc) (BClist st))"

lemma filter_update_less:
  "i < length xs \<Longrightarrow> P (xs ! i) \<Longrightarrow> \<not> P y \<Longrightarrow>
     length (filter P (xs[i := y])) < length (filter P xs)"
proof (induction xs arbitrary: i)
  case Nil
  then show ?case by simp
next
  case (Cons x xs)
  show ?case
  proof (cases i)
    case 0
    with Cons.prems show ?thesis by (simp add: le_imp_less_Suc)
  next
    case (Suc j)
    with Cons.prems Cons.IH [of j] show ?thesis by simp
  qed
qed

lemma read_skip_referenced:
  "read_claim_step st sec_no = Skipped st' \<Longrightarrow> referenced st' < referenced st"
  by (auto simp: read_claim_step_def referenced_def Let_def filter_update_less split: if_splits)

lemma write_skip_referenced:
  "write_claim_step st sec_no = Skipped st' \<Longrightarrow> referenced st' < referenced st"
  by (auto simp: write_claim_step_def referenced_def Let_def filter_update_less split: if_splits)

text \<open>The \<open>while (true)\<close> loops of \<open>_disk_read\<close> and \<open>_disk_write\<close>.\<close>

function read_claim :: "fs \<Rightarrow> disk_sector_t \<Rightarrow> (nat \<times> fs) option" where
  "read_claim st sec_no =
     (case read_claim_step st sec_no of
        Claimed i st' \<Rightarrow> Some (i, st')
      | Skipped st' \<Rightarrow> read_claim st' sec_no
      | Stuck \<Rightarrow> None)"
  by pat_completeness auto
termination
  by (relation "measure (\<lambda>(st, sec_no). referenced st)") (auto simp: read_skip_referenced)

function write_claim :: "fs \<Rightarrow> disk_sector_t \<Rightarrow> (nat \<times> fs) option" where
  "write_claim st sec_no =
     (case write_claim_step st sec_no of
        Claimed i st' \<Rightarrow> Some (i, st')
      | Skipped st' \<Rightarrow> write_claim st' sec_no
      | Stuck \<Rightarrow> None)"
  by pat_completeness auto
termination
  by (relation "measure (\<lambda>(st, sec_no). referenced st)") (auto simp: write_skip_referenced)

declare read_claim.simps [simp del] write_claim.simps [simp del]

text \<open>The search shared by both operations, then the copy at the labels \<open>read:\<close> and
  \<open>write:\<close>. A \<open>memcpy\<close> that leaves the 512-byte slot buffer, or that reads past the
  caller's source buffer, is undefined in C: the model returns \<open>None\<close> there.\<close>

definition in_slot :: "int \<Rightarrow> int \<Rightarrow> bool" where
  "in_slot ofs len = (0 \<le> ofs \<and> 0 \<le> len \<and> ofs + len \<le> int DISK_SECTOR_SIZE)"

definition read_locate :: "fs \<Rightarrow> disk_sector_t \<Rightarrow> (nat \<times> fs) option" where
  "read_locate st sec_no =
     (case hit_scan (BClist st) sec_no 0 of
        Some i \<Rightarrow> Some (i, st\<lparr>BClist := (BClist st)[i := (BClist st ! i)\<lparr>access := True\<rparr>]\<rparr>)
      | None \<Rightarrow> read_claim st sec_no)"

definition write_locate :: "fs \<Rightarrow> disk_sector_t \<Rightarrow> (nat \<times> fs) option" where
  "write_locate st sec_no =
     (case hit_scan (BClist st) sec_no 0 of
        Some i \<Rightarrow> Some (i, st\<lparr>BClist := (BClist st)[i := (BClist st ! i)\<lparr>dirty := True\<rparr>]\<rparr>)
      | None \<Rightarrow> write_claim st sec_no)"

text \<open>\<open>_disk_read (d, sec_no, buffer, start, end)\<close>: the bytes copied into the caller's
  buffer and the new state. The source's parameters \<open>start\<close> (offset into the slot) and
  \<open>end\<close> (a byte count) are \<open>ofs\<close> and \<open>len\<close> here.\<close>

definition cache_disk_read :: "fs \<Rightarrow> disk_sector_t \<Rightarrow> int \<Rightarrow> int \<Rightarrow> (byte list \<times> fs) option" where
  "cache_disk_read st sec_no ofs len =
     (case read_locate st sec_no of
        None \<Rightarrow> None
      | Some (i, st') \<Rightarrow>
          if in_slot ofs len
          then Some (take (nat len) (drop (nat ofs) (buffer (BClist st' ! i))), st')
          else None)"

text \<open>\<open>_disk_write (d, sec_no, buffer, start, end)\<close>; \<open>src\<close> is the caller's buffer.\<close>

definition patch :: "byte list \<Rightarrow> nat \<Rightarrow> byte list \<Rightarrow> byte list" where
  "patch buf ofs bytes = take ofs buf @ bytes @ drop (ofs + length bytes) buf"

definition cache_disk_write :: "fs \<Rightarrow> disk_sector_t \<Rightarrow> byte list \<Rightarrow> int \<Rightarrow> int \<Rightarrow> fs option" where
  "cache_disk_write st sec_no src ofs len =
     (case write_locate st sec_no of
        None \<Rightarrow> None
      | Some (i, st') \<Rightarrow>
          if in_slot ofs len \<and> nat len \<le> length src
          then
            let bc = BClist st' ! i
            in Some (st'\<lparr>BClist := (BClist st')[i := bc\<lparr>buffer := patch (buffer bc) (nat ofs) (take (nat len) src),
                                     sector := sec_no, alloc := True, access := True\<rparr>]\<rparr>)
          else None)"

text \<open>A claim loop cut off after \<open>n\<close> iterations, to count iterations.\<close>

fun claim_within :: "(fs \<Rightarrow> disk_sector_t \<Rightarrow> claim) \<Rightarrow> nat \<Rightarrow> fs \<Rightarrow> disk_sector_t \<Rightarrow> (nat \<times> fs) option" where
  "claim_within step 0 st sec_no = None"
| "claim_within step (Suc n) st sec_no =
     (case step st sec_no of
        Claimed i st' \<Rightarrow> Some (i, st')
      | Skipped st' \<Rightarrow> claim_within step n st' sec_no
      | Stuck \<Rightarrow> None)"

subsection \<open>Invariants and sequences of cache operations\<close>

text \<open>The pool has its 64 slots and the cursor indexes one of them; slot \<open>i\<close> would be
  skipped by a claim loop; the state after a claim loop has skipped the slot at the
  cursor.\<close>

definition pool_ok :: "fs \<Rightarrow> bool" where
  "pool_ok st = (length (BClist st) = 64 \<and> next_BC_to_evict st < 64)"

definition busy :: "fs \<Rightarrow> nat \<Rightarrow> bool" where
  "busy st i = (alloc (BClist st ! i) \<and> access (BClist st ! i))"

definition skip_slot :: "fs \<Rightarrow> fs" where
  "skip_slot st =
     st\<lparr>next_BC_to_evict := (next_BC_to_evict st + 1) mod 64,
        BClist := (BClist st)[next_BC_to_evict st := (BClist st ! next_BC_to_evict st)\<lparr>access := False\<rparr>]\<rparr>"

text \<open>A call of \<open>_disk_read (sec_no, start, end)\<close> or of
  \<open>_disk_write (sec_no, buffer, start, end)\<close>, and the state after a sequence of calls
  (\<open>None\<close> when one of them is undefined).\<close>

datatype cache_op = ReadThrough disk_sector_t int int | WriteThrough disk_sector_t "byte list" int int

fun apply_op :: "fs \<Rightarrow> cache_op \<Rightarrow> fs option" where
  "apply_op st (ReadThrough sec_no ofs len) = map_option snd (cache_disk_read st sec_no ofs len)"
| "apply_op st (WriteThrough sec_no src ofs len) = cache_disk_write st sec_no src ofs len"

fun run_ops :: "fs \<Rightarrow> cache_op list \<Rightarrow> fs option" where
  "run_ops st [] = Some st"
| "run_ops st (x # xs) = (case apply_op st x of None \<Rightarrow> None | Some st' \<Rightarrow> run_ops st' xs)"

text \<open>The sectors held by allocated slots.\<close>

definition resident :: "fs \<Rightarrow> disk_sector_t set" where
  "resident st = sector ` {bc \<in> set (BClist st). alloc bc}"

text \<open>The invariant of the slot pool: a slot that is not allocated still has the sector
  \<open>-1\<close> of \<open>inode_init\<close>; allocated slots hold pairwise distinct sectors; and when an
  allocated slot holds \<open>-1\<close> (after a write to sector \<open>-1\<close>), every slot before it is
  allocated.\<close>

definition cache_inv :: "fs \<Rightarrow> bool" where
  "cache_inv st =
     (pool_ok st
      \<and> (\<forall>i<64. \<not> alloc (BClist st ! i) \<longrightarrow> sector (BClist st ! i) = NO_SECTOR)
      \<and> (\<forall>i<64. \<forall>j<64. i \<noteq> j \<longrightarrow> alloc (BClist st ! i) \<longrightarrow> alloc (BClist st ! j) \<longrightarrow>
             sector (BClist st ! i) \<noteq> sector (BClist st ! j))
      \<and> (\<forall>i<64. alloc (BClist st ! i) \<longrightarrow> sector (BClist st ! i) = NO_SECTOR \<longrightarrow>
             (\<forall>j<i. alloc (BClist st ! j))))"

text \<open>No slot has sector \<open>s\<close> in its \<open>sector\<close> field: the hit scan misses.\<close>

definition absent :: "fs \<Rightarrow> disk_sector_t \<Rightarrow> bool" where
  "absent st s = (\<forall>j<64. sector (BClist st ! j) \<noteq> s)"

text \<open>An operation within the contract of the cache: the copy stays inside the sector and
  inside the caller's buffer.\<close>

fun op_in_contract :: "cache_op \<Rightarrow> bool" where
  "op_in_contract (ReadThrough sec_no ofs len) = in_slot ofs len"
| "op_in_contract (WriteThrough sec_no src ofs len) = (in_slot ofs len \<and> nat len \<le> length src)"

text \<open>The contents of sector \<open>s\<close> as the cache presents them: the buffer of the allocated
  slot that holds \<open>s\<close>, or else what the device holds.\<close>

definition cached :: "fs \<Rightarrow> disk_sector_t \<Rightarrow> BC option" where
  "cached st s = find (\<lambda>bc. alloc bc \<and> sector bc = s) (BClist st)"

definition view :: "fs \<Rightarrow> disk_sector_t \<Rightarrow> byte list" where
  "view st s = (case cached st s of Some bc \<Rightarrow> buffer bc | None \<Rightarrow> filesys_disk st s)"

text \<open>The invariant of the cached data, for calls on sectors other than \<open>-1\<close>: no allocated
  slot holds \<open>-1\<close>; an allocated slot that is not dirty agrees with the device; buffers of
  allocated slots and device sectors hold \<open>DISK_SECTOR_SIZE\<close> bytes.\<close>

definition data_inv :: "fs \<Rightarrow> bool" where
  "data_inv st =
     (cache_inv st
      \<and> (\<forall>i<64. alloc (BClist st ! i) \<longrightarrow> sector (BClist st ! i) \<noteq> NO_SECTOR)
      \<and> (\<forall>i<64. alloc (BClist st ! i) \<longrightarrow> \<not> dirty (BClist st ! i) \<longrightarrow>
             buffer (BClist st ! i) = filesys_disk st (sector (BClist st ! i)))
      \<and> (\<forall>i<64. alloc (BClist st ! i) \<longrightarrow> length (buffer (BClist st ! i)) = DISK_SECTOR_SIZE)
      \<and> (\<forall>s. length (filesys_disk st s) = DISK_SECTOR_SIZE))"

text \<open>The byte that an operation stores at position \<open>p\<close> of sector \<open>s\<close>, if it stores one,
  and the byte most recently stored there by a sequence of operations (in call order).\<close>

fun written_by :: "cache_op \<Rightarrow> disk_sector_t \<Rightarrow> nat \<Rightarrow> byte option" where
  "written_by (ReadThrough sec_no ofs len) s p = None"
| "written_by (WriteThrough sec_no src ofs len) s p =
     (if sec_no = s \<and> nat ofs \<le> p \<and> p < nat ofs + nat len then Some (src ! (p - nat ofs)) else None)"

fun last_written :: "cache_op list \<Rightarrow> disk_sector_t \<Rightarrow> nat \<Rightarrow> byte option" where
  "last_written [] s p = None"
| "last_written (x # xs) s p =
     (case last_written xs s p of Some v \<Rightarrow> Some v | None \<Rightarrow> written_by x s p)"

text \<open>The sector an operation names is a sector of the device, not the \<open>-1\<close> that marks an
  unallocated slot.\<close>

fun op_on_device :: "cache_op \<Rightarrow> bool" where
  "op_on_device (ReadThrough sec_no ofs len) = (sec_no \<noteq> NO_SECTOR)"
| "op_on_device (WriteThrough sec_no src ofs len) = (sec_no \<noteq> NO_SECTOR)"

text \<open>Seventy writes, to seventy distinct sectors: sector \<open>n\<close> gets the byte \<open>n + 1\<close> at
  offset 0.\<close>

definition seventy_writes :: "cache_op list" where
  "seventy_writes = map (\<lambda>n. WriteThrough (of_nat n) [of_nat n + 1] 0 1) [0..<70]"

text \<open>Three states in which sector 7 is not cached and the cursor is at slot 0: a fresh
  pool; slot 0 holding sector 5, recently used and dirty; slot 0 holding sector 5, dirty
  and not recently used.\<close>

definition example_fresh :: fs where
  "example_fresh = inode_init (\<lambda>i. []) (\<lambda>s. replicate 512 0)"

definition example_referenced :: fs where
  "example_referenced =
     example_fresh\<lparr>BClist := (BClist example_fresh)[0 :=
        \<lparr>buffer = replicate 512 1, sector = 5, alloc = True, access = True, dirty = True\<rparr>]\<rparr>"

definition example_victim :: fs where
  "example_victim =
     example_fresh\<lparr>BClist := (BClist example_fresh)[0 :=
        \<lparr>buffer = replicate 512 1, sector = 5, alloc = True, access = False, dirty = True\<rparr>]\<rparr>"

text \<open>A pool in which every slot is allocated and recently used, slot \<open>i\<close> holding sector
  \<open>i\<close>, with the cursor at slot 0.\<close>

definition example_full :: fs where
  "example_full =
     (inode_init (\<lambda>i. []) (\<lambda>s. replicate 512 0))
       \<lparr>BClist := map (\<lambda>i. \<lparr>buffer = [], sector = of_nat i, alloc = True,
                                access = True, dirty = False\<rparr>) [0..<64]\<rparr>"

section \<open>Inode layer (filesys/inode.c)\<close>

text \<open>\<open>INODE_MAGIC\<close>.\<close>

definition INODE_MAGIC :: "32 word" where
  "INODE_MAGIC = 0x494e4f44"

text \<open>\<open>inode_length\<close>.\<close>

definition inode_length :: "inode \<Rightarrow> off_t" where
  "inode_length ino = length_bytes (data ino)"

text \<open>\<open>byte_to_sector\<close>. The division is C's, truncating towards zero; the sum is taken in
  the unsigned 32-bit type \<open>disk_sector_t\<close>.\<close>

definition byte_to_sector :: "inode \<Rightarrow> off_t \<Rightarrow> disk_sector_t" where
  "byte_to_sector ino pos =
     (if pos < length_bytes (data ino)
      then start (data ino) + word_of_int (pos sdiv int DISK_SECTOR_SIZE)
      else - 1)"

text \<open>
  \<open>off_t\<close> and \<open>int\<close> have 32 bits. \<open>int32\<close> holds of the integers that are values of these
  types, and \<open>wrap32\<close> gives the value that a sum or a difference of two of them has in the
  type: the 80x86 target computes it in two's complement and does not trap.
\<close>

definition int32 :: "int \<Rightarrow> bool" where
  "int32 x = (- (2 ^ 31) \<le> x \<and> x < 2 ^ 31)"

definition wrap32 :: "int \<Rightarrow> int" where
  "wrap32 x = signed_take_bit 31 x"

text \<open>The chunk computed by one iteration of the loops of \<open>inode_read_at\<close> and
  \<open>inode_write_at\<close>: \<open>sector_ofs\<close>, \<open>inode_left\<close>, \<open>sector_left\<close>, \<open>min_left\<close>, \<open>chunk_size\<close>.
  The source's parameter \<open>size\<close> is \<open>sz\<close> here. \<open>sector_ofs\<close> lies strictly between \<open>-512\<close>
  and 512, so that \<open>sector_left\<close> is in range.\<close>

definition sector_ofs :: "off_t \<Rightarrow> int" where
  "sector_ofs offset = offset smod int DISK_SECTOR_SIZE"

definition chunk_size :: "inode \<Rightarrow> off_t \<Rightarrow> off_t \<Rightarrow> int" where
  "chunk_size ino sz offset =
     (let inode_left = wrap32 (inode_length ino - offset);
          sector_left = int DISK_SECTOR_SIZE - sector_ofs offset;
          min_left = (if inode_left < sector_left then inode_left else sector_left)
      in if sz < min_left then sz else min_left)"

text \<open>The loop of \<open>inode_read_at\<close>: \<open>buf\<close> is what has been stored in the caller's buffer
  so far, \<open>bytes_read\<close> its count. \<open>None\<close>: a call into the cache that is undefined. The
  three updates of the loop are 32-bit additions and subtractions.\<close>

function read_loop :: "fs \<Rightarrow> inode \<Rightarrow> off_t \<Rightarrow> off_t \<Rightarrow> off_t \<Rightarrow> byte list \<Rightarrow> (off_t \<times> byte list \<times> fs) option" where
  "read_loop st ino sz offset bytes_read buf =
     (if 0 < sz then
        if chunk_size ino sz offset \<le> 0 then Some (bytes_read, buf, st)
        else
          (case cache_disk_read st (byte_to_sector ino offset) (sector_ofs offset) (chunk_size ino sz offset) of
             None \<Rightarrow> None
           | Some (bytes, st') \<Rightarrow>
               read_loop st' ino (wrap32 (sz - chunk_size ino sz offset))
                 (wrap32 (offset + chunk_size ino sz offset))
                 (wrap32 (bytes_read + chunk_size ino sz offset)) (buf @ bytes))
      else Some (bytes_read, buf, st))"
  by pat_completeness auto
termination
proof (relation "measure (\<lambda>(st, ino, sz, offset, bytes_read, buf). nat sz)")
  fix st :: fs and ino sz offset and bytes_read :: off_t and buf :: "byte list" and x2 x y
  assume pos: "0 < sz" and c: "\<not> chunk_size ino sz offset \<le> 0"
  have le: "chunk_size ino sz offset \<le> sz" by (simp add: chunk_size_def Let_def)
  have "wrap32 (sz - chunk_size ino sz offset) < sz"
  proof (cases "sz < 2 ^ 31")
    case True
    with c le have "wrap32 (sz - chunk_size ino sz offset) = sz - chunk_size ino sz offset"
      unfolding wrap32_def by (intro signed_take_bit_int_eq_self) simp_all
    with c show ?thesis by simp
  next
    case False
    have "wrap32 (sz - chunk_size ino sz offset) < 2 ^ 31"
      unfolding wrap32_def by (rule signed_take_bit_int_less_exp)
    with False show ?thesis by simp
  qed
  with pos show "((x, ino, wrap32 (sz - chunk_size ino sz offset), wrap32 (offset + chunk_size ino sz offset),
                    wrap32 (bytes_read + chunk_size ino sz offset), buf @ y),
                  st, ino, sz, offset, bytes_read, buf)
                 \<in> measure (\<lambda>(st, ino, sz, offset, bytes_read, buf). nat sz)" by simp
qed simp
declare read_loop.simps [simp del]

text \<open>\<open>inode_read_at\<close>, on the inode that the pointer \<open>p\<close> refers to: the count returned,
  the bytes stored in the caller's buffer, the new state.\<close>

definition inode_read_at :: "fs \<Rightarrow> nat \<Rightarrow> off_t \<Rightarrow> off_t \<Rightarrow> (off_t \<times> byte list \<times> fs) option" where
  "inode_read_at st p sz offset =
     (case inode_heap st p of
        None \<Rightarrow> None
      | Some ino \<Rightarrow> read_loop st ino sz offset 0 [])"

text \<open>The loop of \<open>inode_write_at\<close>; \<open>buffer + bytes_written\<close> is the source of each chunk.\<close>

function write_loop :: "fs \<Rightarrow> inode \<Rightarrow> byte list \<Rightarrow> off_t \<Rightarrow> off_t \<Rightarrow> off_t \<Rightarrow> (off_t \<times> fs) option" where
  "write_loop st ino src sz offset bytes_written =
     (if 0 < sz then
        if chunk_size ino sz offset \<le> 0 then Some (bytes_written, st)
        else
          (case cache_disk_write st (byte_to_sector ino offset) (drop (nat bytes_written) src)
                  (sector_ofs offset) (chunk_size ino sz offset) of
             None \<Rightarrow> None
           | Some st' \<Rightarrow>
               write_loop st' ino src (wrap32 (sz - chunk_size ino sz offset))
                 (wrap32 (offset + chunk_size ino sz offset))
                 (wrap32 (bytes_written + chunk_size ino sz offset)))
      else Some (bytes_written, st))"
  by pat_completeness auto
termination
proof (relation "measure (\<lambda>(st, ino, src, sz, offset, bytes_written). nat sz)")
  fix st :: fs and ino and src :: "byte list" and sz offset and bytes_written :: off_t and x2
  assume pos: "0 < sz" and c: "\<not> chunk_size ino sz offset \<le> 0"
  have le: "chunk_size ino sz offset \<le> sz" by (simp add: chunk_size_def Let_def)
  have "wrap32 (sz - chunk_size ino sz offset) < sz"
  proof (cases "sz < 2 ^ 31")
    case True
    with c le have "wrap32 (sz - chunk_size ino sz offset) = sz - chunk_size ino sz offset"
      unfolding wrap32_def by (intro signed_take_bit_int_eq_self) simp_all
    with c show ?thesis by simp
  next
    case False
    have "wrap32 (sz - chunk_size ino sz offset) < 2 ^ 31"
      unfolding wrap32_def by (rule signed_take_bit_int_less_exp)
    with False show ?thesis by simp
  qed
  with pos show "((x2, ino, src, wrap32 (sz - chunk_size ino sz offset),
                    wrap32 (offset + chunk_size ino sz offset),
                    wrap32 (bytes_written + chunk_size ino sz offset)),
                  st, ino, src, sz, offset, bytes_written)
                 \<in> measure (\<lambda>(st, ino, src, sz, offset, bytes_written). nat sz)" by simp
qed simp
declare write_loop.simps [simp del]

text \<open>\<open>inode_write_at\<close>; \<open>src\<close> is the caller's buffer.\<close>

definition inode_write_at :: "fs \<Rightarrow> nat \<Rightarrow> byte list \<Rightarrow> off_t \<Rightarrow> off_t \<Rightarrow> (off_t \<times> fs) option" where
  "inode_write_at st p src sz offset =
     (case inode_heap st p of
        None \<Rightarrow> None
      | Some ino \<Rightarrow>
          if deny_write_cnt ino \<noteq> 0 then Some (0, st)
          else write_loop st ino src sz offset 0)"

text \<open>The byte of the file at position \<open>pos\<close>, where \<open>inode_read_at\<close> and \<open>inode_write_at\<close>
  look for it, in the contents \<open>V\<close> of the sectors.\<close>

definition file_byte :: "(disk_sector_t \<Rightarrow> byte list) \<Rightarrow> inode \<Rightarrow> off_t \<Rightarrow> byte" where
  "file_byte V ino pos = V (byte_to_sector ino pos) ! nat (sector_ofs pos)"

text \<open>Byte \<open>i\<close> of sector \<open>s\<close> holds one of the \<open>cnt\<close> positions of the file from \<open>offset\<close> on.\<close>

definition touches :: "inode \<Rightarrow> off_t \<Rightarrow> int \<Rightarrow> disk_sector_t \<Rightarrow> nat \<Rightarrow> bool" where
  "touches ino offset cnt s i =
     (\<exists>pos. offset \<le> pos \<and> pos < offset + cnt \<and> byte_to_sector ino pos = s \<and> nat (sector_ofs pos) = i)"

text \<open>Every position of the file lies in a sector of the device: none in the sector
  numbered \<open>-1\<close>, the value by which \<open>byte_to_sector\<close> reports a position past the end.\<close>

definition file_on_device :: "inode \<Rightarrow> bool" where
  "file_on_device ino =
     (\<forall>pos. 0 \<le> pos \<and> pos < inode_length ino \<longrightarrow> byte_to_sector ino pos \<noteq> NO_SECTOR)"

text \<open>A state after \<open>inode_init\<close> (zeroed 512-byte buffers, zeroed device) with one open
  inode at pointer 0: descriptor sector 10, data from sector 20, and the given length and
  deny-write count.\<close>

definition example_file :: "off_t \<Rightarrow> int \<Rightarrow> fs" where
  "example_file len deny =
     (inode_init (\<lambda>i. replicate 512 0) (\<lambda>s. replicate 512 0))
       \<lparr>open_inodes := [0],
        inode_heap := [0 \<mapsto> \<lparr>i_sector = 10, open_cnt = 1, removed = False, deny_write_cnt = deny,
                            data = \<lparr>start = 20, length_bytes = len, magic = INODE_MAGIC\<rparr>\<rparr>]\<rparr>"

text \<open>Every slot buffer and every device sector holds \<open>DISK_SECTOR_SIZE\<close> bytes.\<close>

definition sized :: "fs \<Rightarrow> bool" where
  "sized st =
     (pool_ok st
      \<and> (\<forall>i<64. length (buffer (BClist st ! i)) = DISK_SECTOR_SIZE)
      \<and> (\<forall>s. length (filesys_disk st s) = DISK_SECTOR_SIZE))"

text \<open>
  Modelled from the spec: the macro \<open>DIV_ROUND_UP\<close> of lib/round.h, which the spec gives as
  \<open>ceil(lengthBytes / sectorSize)\<close>: the quotient rounded up. It is used below on sizes
  that are not negative, and on \<open>-1023\<close>, where rounding up gives \<open>-1\<close>.
\<close>

definition DIV_ROUND_UP :: "int \<Rightarrow> int \<Rightarrow> int" where
  "DIV_ROUND_UP x step = - ((- x) div step)"

text \<open>
  \<open>bytes_to_sectors\<close>. The quotient is converted to the result type \<open>size_t\<close> (32 bits,
  unsigned): a quotient that is not negative keeps its value, a negative one, which only a
  negative size gives, becomes the huge count \<open>2 ^ 32 + q\<close>.
\<close>

definition bytes_to_sectors :: "off_t \<Rightarrow> nat" where
  "bytes_to_sectors sz =
     (let q = DIV_ROUND_UP sz (int DISK_SECTOR_SIZE)
      in if 0 \<le> q then nat q else nat (q + 2 ^ 32))"

text \<open>The bytes of a \<open>struct inode_disk\<close> in memory and on the device (80x86, little endian):
  \<open>start\<close>, \<open>length\<close>, \<open>magic\<close>, then the 125 unused words.\<close>

definition le32 :: "32 word \<Rightarrow> byte list" where
  "le32 w = [ucast w, ucast (drop_bit 8 w), ucast (drop_bit 16 w), ucast (drop_bit 24 w)]"

definition from_le32 :: "byte list \<Rightarrow> 32 word" where
  "from_le32 bs =
     ucast (bs ! 0) OR push_bit 8 (ucast (bs ! 1)) OR push_bit 16 (ucast (bs ! 2))
       OR push_bit 24 (ucast (bs ! 3))"

definition inode_disk_bytes :: "inode_disk \<Rightarrow> byte list" where
  "inode_disk_bytes d =
     le32 (start d) @ le32 (word_of_int (length_bytes d)) @ le32 (magic d) @ replicate 500 0"

definition inode_disk_of_bytes :: "byte list \<Rightarrow> inode_disk" where
  "inode_disk_of_bytes bs =
     \<lparr> start = from_le32 (take 4 bs),
       length_bytes = sint (from_le32 (take 4 (drop 4 bs))),
       magic = from_le32 (take 4 (drop 8 bs)) \<rparr>"

text \<open>The static array \<open>zeros\<close> of \<open>inode_create\<close>, and its \<open>for\<close> loop over the data sectors.\<close>

definition zeros :: "byte list" where
  "zeros = replicate DISK_SECTOR_SIZE 0"

fun zero_fill :: "fs \<Rightarrow> disk_sector_t \<Rightarrow> nat list \<Rightarrow> fs option" where
  "zero_fill st first [] = Some st"
| "zero_fill st first (i # js) =
     (case cache_disk_write st (first + of_nat i) zeros 0 (int DISK_SECTOR_SIZE) of
        None \<Rightarrow> None
      | Some st' \<Rightarrow> zero_fill st' first js)"

text \<open>
  \<open>inode_create (sector, length)\<close>; the source's \<open>length\<close> is \<open>len\<close> here. The results of the
  external calls are parameters: \<open>calloc_ok\<close> tells whether \<open>calloc\<close> returned memory, and
  \<open>allocated\<close> is what \<open>free_map_allocate\<close> answered, the first sector of the run or
  nothing. \<open>None\<close>: the call does not return (a failed \<open>ASSERT\<close>, or an undefined call
  into the cache).
\<close>

definition inode_create :: "fs \<Rightarrow> disk_sector_t \<Rightarrow> off_t \<Rightarrow> bool \<Rightarrow> disk_sector_t option \<Rightarrow> (bool \<times> fs) option" where
  "inode_create st sec len calloc_ok allocated =
     (if \<not> 0 \<le> len then None
      else if \<not> calloc_ok then Some (False, st)
      else
        let sectors = bytes_to_sectors len
        in case allocated of
             None \<Rightarrow> Some (False, st)
           | Some first \<Rightarrow>
               (case cache_disk_write st sec
                       (inode_disk_bytes \<lparr>start = first, length_bytes = len, magic = INODE_MAGIC\<rparr>)
                       0 (int DISK_SECTOR_SIZE) of
                  None \<Rightarrow> None
                | Some st1 \<Rightarrow>
                    (case (if 0 < sectors then zero_fill st1 first [0..<sectors] else Some st1) of
                       None \<Rightarrow> None
                     | Some st2 \<Rightarrow> Some (True, st2))))"

text \<open>The order of the spec's sentence: the data sectors are zero-filled first, the
  descriptor is written last. Everything else is as in \<open>inode_create\<close>.\<close>

definition inode_create_zero_fill_first :: "fs \<Rightarrow> disk_sector_t \<Rightarrow> off_t \<Rightarrow> bool \<Rightarrow> disk_sector_t option \<Rightarrow> (bool \<times> fs) option" where
  "inode_create_zero_fill_first st sec len calloc_ok allocated =
     (if \<not> 0 \<le> len then None
      else if \<not> calloc_ok then Some (False, st)
      else
        let sectors = bytes_to_sectors len
        in case allocated of
             None \<Rightarrow> Some (False, st)
           | Some first \<Rightarrow>
               (case zero_fill st first [0..<sectors] of
                  None \<Rightarrow> None
                | Some st1 \<Rightarrow>
                    (case cache_disk_write st1 sec
                       (inode_disk_bytes \<lparr>start = first, length_bytes = len, magic = INODE_MAGIC\<rparr>)
                       0 (int DISK_SECTOR_SIZE) of
                       None \<Rightarrow> None
                     | Some st2 \<Rightarrow> Some (True, st2))))"

text \<open>The cache calls that \<open>inode_create\<close> makes when both allocations succeed, in order.\<close>

definition create_writes :: "disk_sector_t \<Rightarrow> off_t \<Rightarrow> disk_sector_t \<Rightarrow> cache_op list" where
  "create_writes sec len first =
     WriteThrough sec (inode_disk_bytes \<lparr>start = first, length_bytes = len, magic = INODE_MAGIC\<rparr>)
        0 (int DISK_SECTOR_SIZE)
     # map (\<lambda>i. WriteThrough (first + of_nat i) zeros 0 (int DISK_SECTOR_SIZE)) [0..<bytes_to_sectors len]"








text \<open>The registry: every listed pointer refers to a live inode with at least one opener,
  no pointer is listed twice, and no two listed inodes have the same descriptor sector.\<close>

definition registry_ok :: "fs \<Rightarrow> bool" where
  "registry_ok st =
     (distinct (open_inodes st)
      \<and> (\<forall>p \<in> set (open_inodes st). \<exists>ino. inode_heap st p = Some ino \<and> 1 \<le> open_cnt ino)
      \<and> (\<forall>p \<in> set (open_inodes st). \<forall>q \<in> set (open_inodes st).
            p \<noteq> q \<longrightarrow> map_option i_sector (inode_heap st p) \<noteq> map_option i_sector (inode_heap st q)))"



text \<open>The cache leaves the registry, the inodes and the trace alone.\<close>

definition same_inodes :: "fs \<Rightarrow> fs \<Rightarrow> bool" where
  "same_inodes st st' =
     (open_inodes st' = open_inodes st \<and> inode_heap st' = inode_heap st \<and> trace st' = trace st)"

section \<open>Frame table (vm/frame.c)\<close>

type_synonym kpage = "32 word"
type_synonym pte = "32 word"

text \<open>
  The file-scope state of frame.c. Each \<open>struct kpage_f_e\<close> of the hash \<open>kpage_hash\<close>,
  with the \<open>struct frame_entry\<close> it points to, is an entry of the map: the kernel page,
  and the \<open>pte_list\<close> of its frame entry in list order (\<open>pte\<close> is the address of a page
  table entry). \<open>frame_table\<close> holds the links \<open>elem\<close> of the frame entries in
  \<open>list_push_back\<close> order, each named by the page its entry was made for: \<open>Live\<close> while
  the entry is allocated, \<open>Freed\<close> once \<open>frame_free_page\<close> has passed the entry to \<open>free\<close>,
  which it does without unlinking it. \<open>palloc_freed\<close> records the pages handed to
  \<open>palloc_free_page\<close>, in call order.
\<close>

datatype frame_link = Live kpage | Freed kpage

fun freed_link :: "frame_link \<Rightarrow> bool" where
  "freed_link (Freed page) = True"
| "freed_link (Live page) = False"

record vm =
  frame_table :: "frame_link list"
  kpage_hash :: "kpage \<rightharpoonup> pte list"
  palloc_freed :: "kpage list"

text \<open>
  What the external collaborators answer during one call of \<open>frame_get_page\<close>:
  \<open>palloc_get_page (flags)\<close>, \<open>pagedir_get_page (pagedir, upage)\<close>,
  \<open>pagedir_set_page (pagedir, upage, kpage, writable)\<close>, whether the \<open>malloc\<close> calls of the
  bookkeeping return memory (the source does not test them), and
  \<open>lookup_page (pagedir, upage, true)\<close>.
\<close>

record extern =
  palloc_get_page :: "kpage option"
  pagedir_get_page :: "kpage option"
  pagedir_set_page :: bool
  malloc_ok :: bool
  lookup_page :: pte

text \<open>\<open>frame_init\<close>.\<close>

definition frame_init :: vm where
  "frame_init = \<lparr>frame_table = [], kpage_hash = Map.empty, palloc_freed = []\<rparr>"

text \<open>\<open>install_page\<close>: the page table is changed only when no page is mapped at \<open>upage\<close>.\<close>

definition install_page :: "extern \<Rightarrow> bool" where
  "install_page ex = (pagedir_get_page ex = None \<and> pagedir_set_page ex)"

text \<open>\<open>frame_get_page (flags, upage, writable)\<close>: the page returned (\<open>None\<close> for \<open>NULL\<close>) and
  the new state. The three arguments only reach the external calls, whose answers are in
  \<open>ex\<close>. The outer \<open>None\<close>, no defined result: a \<open>malloc\<close> of the bookkeeping failed and \<open>NULL\<close>
  is dereferenced, or \<open>list_push_back (&frame_table, &f_e->elem)\<close> finds a freed entry
  at the back of \<open>frame_table\<close> and stores into its \<open>next\<close> field.\<close>

definition dangling_back :: "vm \<Rightarrow> bool" where
  "dangling_back st = (frame_table st \<noteq> [] \<and> freed_link (last (frame_table st)))"

definition frame_get_page :: "vm \<Rightarrow> extern \<Rightarrow> (kpage option \<times> vm) option" where
  "frame_get_page st ex =
     (case palloc_get_page ex of
        None \<Rightarrow> Some (None, st)
      | Some kpage \<Rightarrow>
          if \<not> install_page ex
          then Some (None, st\<lparr>palloc_freed := palloc_freed st @ [kpage]\<rparr>)
          else if \<not> malloc_ok ex then None
          else
            (case kpage_hash st kpage of
               None \<Rightarrow>
                 if dangling_back st then None
                 else
                   Some (Some kpage,
                     st\<lparr>kpage_hash := (kpage_hash st)(kpage \<mapsto> [lookup_page ex]),
                        frame_table := frame_table st @ [Live kpage]\<rparr>)
             | Some ptes \<Rightarrow>
                 Some (Some kpage, st\<lparr>kpage_hash := (kpage_hash st)(kpage \<mapsto> ptes @ [lookup_page ex])\<rparr>)))"

text \<open>\<open>frame_free_page (pte)\<close>; \<open>page\<close> is \<open>pte_get_page ( *pte)\<close>, the page that the entry
  refers to, read from the page table. The \<open>for\<close> loop with its \<open>break\<close> unlinks the first
  element of \<open>pte_list\<close> equal to \<open>pte\<close>. When the list is then empty the frame entry is
  freed, but not unlinked from \<open>frame_table\<close>: its link stays there, \<open>Freed\<close>.\<close>

definition free_link :: "kpage \<Rightarrow> frame_link \<Rightarrow> frame_link" where
  "free_link page l = (if l = Live page then Freed page else l)"

definition frame_free_page :: "vm \<Rightarrow> pte \<Rightarrow> kpage \<Rightarrow> vm" where
  "frame_free_page st e page =
     (case kpage_hash st page of
        None \<Rightarrow> st
      | Some ptes \<Rightarrow>
          if remove1 e ptes = []
          then st\<lparr>kpage_hash := (kpage_hash st)(page := None),
                  frame_table := map (free_link page) (frame_table st),
                  palloc_freed := palloc_freed st @ [page]\<rparr>
          else st\<lparr>kpage_hash := (kpage_hash st)(page \<mapsto> remove1 e ptes)\<rparr>)"


text \<open>Sequences of frame-table calls, from \<open>frame_init\<close>.\<close>

datatype vm_op = GetPage extern | FreePage pte kpage

fun vm_apply :: "vm \<Rightarrow> vm_op \<Rightarrow> vm option" where
  "vm_apply st (GetPage ex) = map_option snd (frame_get_page st ex)"
| "vm_apply st (FreePage e page) = Some (frame_free_page st e page)"

fun vm_run :: "vm \<Rightarrow> vm_op list \<Rightarrow> vm option" where
  "vm_run st [] = Some st"
| "vm_run st (x # xs) = (case vm_apply st x of None \<Rightarrow> None | Some st' \<Rightarrow> vm_run st' xs)"

text \<open>Answers of the collaborators for a call that obtains page \<open>k\<close> and maps it through
  the page table entry at \<open>e\<close>.\<close>

definition page_mapped :: "kpage \<Rightarrow> pte \<Rightarrow> extern" where
  "page_mapped k e =
     \<lparr>palloc_get_page = Some k, pagedir_get_page = None, pagedir_set_page = True,
      malloc_ok = True, lookup_page = e\<rparr>"


section \<open>Properties of the block cache\<close>

subsection \<open>The claim loops terminate\<close>

lemma pool_ok_skip: "pool_ok st \<Longrightarrow> pool_ok (skip_slot st)"
  by (simp add: pool_ok_def skip_slot_def)

lemma read_step_skips:
  "pool_ok st \<Longrightarrow> busy st (next_BC_to_evict st) \<Longrightarrow> read_claim_step st sec_no = Skipped (skip_slot st)"
  by (simp add: pool_ok_def busy_def read_claim_step_def skip_slot_def Let_def)

lemma write_step_skips:
  "pool_ok st \<Longrightarrow> busy st (next_BC_to_evict st) \<Longrightarrow> write_claim_step st sec_no = Skipped (skip_slot st)"
  by (simp add: pool_ok_def busy_def write_claim_step_def skip_slot_def Let_def)

lemma read_step_claims:
  "pool_ok st \<Longrightarrow> \<not> busy st (next_BC_to_evict st) \<Longrightarrow>
     \<exists>st'. read_claim_step st sec_no = Claimed (next_BC_to_evict st) st'"
  by (auto simp add: pool_ok_def busy_def read_claim_step_def Let_def)

lemma write_step_claims:
  "pool_ok st \<Longrightarrow> \<not> busy st (next_BC_to_evict st) \<Longrightarrow>
     \<exists>st'. write_claim_step st sec_no = Claimed (next_BC_to_evict st) st'"
  by (auto simp add: pool_ok_def busy_def write_claim_step_def Let_def)

lemma busy_skip:
  "pool_ok st \<Longrightarrow> j < 64 \<Longrightarrow> \<not> busy st j \<Longrightarrow> \<not> busy (skip_slot st) j"
  by (auto simp: pool_ok_def busy_def skip_slot_def nth_list_update)

lemma busy_skip_cursor:
  "pool_ok st \<Longrightarrow> \<not> busy (skip_slot st) (next_BC_to_evict st)"
  by (auto simp: pool_ok_def busy_def skip_slot_def nth_list_update)

lemma claim_within_reaches:
  assumes claims: "\<And>st. pool_ok st \<Longrightarrow> \<not> busy st (next_BC_to_evict st) \<Longrightarrow>
             \<exists>st'. step st sec_no = Claimed (next_BC_to_evict st) st'"
    and skips: "\<And>st. pool_ok st \<Longrightarrow> busy st (next_BC_to_evict st) \<Longrightarrow>
             step st sec_no = Skipped (skip_slot st)"
  shows "pool_ok st \<Longrightarrow> t < n \<Longrightarrow> \<not> busy st ((next_BC_to_evict st + t) mod 64) \<Longrightarrow>
         \<exists>i st'. claim_within step n st sec_no = Some (i, st') \<and> i < 64"
proof (induction n arbitrary: st t)
  case 0
  then show ?case by simp
next
  case (Suc n)
  show ?case
  proof (cases "busy st (next_BC_to_evict st)")
    case False
    with claims [OF Suc.prems(1)] obtain st' where "step st sec_no = Claimed (next_BC_to_evict st) st'"
      by blast
    with Suc.prems(1) show ?thesis by (simp add: pool_ok_def)
  next
    case True
    with Suc.prems(1,3) have "t \<noteq> 0" by (cases t) (auto simp: pool_ok_def)
    then obtain u where u: "t = Suc u" by (cases t) auto
    have cur: "next_BC_to_evict (skip_slot st) = (next_BC_to_evict st + 1) mod 64"
      by (simp add: skip_slot_def)
    have idx: "(next_BC_to_evict (skip_slot st) + u) mod 64 = (next_BC_to_evict st + t) mod 64"
      unfolding cur u by (simp add: mod_simps)
    have "\<not> busy (skip_slot st) ((next_BC_to_evict st + t) mod 64)"
      using busy_skip [OF Suc.prems(1) _ Suc.prems(3)] by simp
    with idx have nb: "\<not> busy (skip_slot st) ((next_BC_to_evict (skip_slot st) + u) mod 64)"
      by simp
    from Suc.prems(2) u have "u < n" by simp
    from Suc.IH [OF pool_ok_skip [OF Suc.prems(1)] this nb]
    show ?thesis using skips [OF Suc.prems(1) True] by simp
  qed
qed

lemma claim_within_65:
  assumes claims: "\<And>st. pool_ok st \<Longrightarrow> \<not> busy st (next_BC_to_evict st) \<Longrightarrow>
             \<exists>st'. step st sec_no = Claimed (next_BC_to_evict st) st'"
    and skips: "\<And>st. pool_ok st \<Longrightarrow> busy st (next_BC_to_evict st) \<Longrightarrow>
             step st sec_no = Skipped (skip_slot st)"
    and ok: "pool_ok st"
  shows "\<exists>i st'. claim_within step 65 st sec_no = Some (i, st') \<and> i < 64"
proof (cases "busy st (next_BC_to_evict st)")
  case False
  then have "\<not> busy st ((next_BC_to_evict st + 0) mod 64)"
    using ok by (simp add: pool_ok_def)
  from claim_within_reaches [of step sec_no, OF claims skips ok _ this, of 65]
  show ?thesis by simp
next
  case True
  have cur: "next_BC_to_evict (skip_slot st) = (next_BC_to_evict st + 1) mod 64"
    by (simp add: skip_slot_def)
  have "(next_BC_to_evict (skip_slot st) + 63) mod 64 = next_BC_to_evict st"
    unfolding cur using ok unfolding pool_ok_def by (simp add: mod_simps)
  with busy_skip_cursor [OF ok]
  have "\<not> busy (skip_slot st) ((next_BC_to_evict (skip_slot st) + 63) mod 64)" by simp
  from claim_within_reaches [of step sec_no, OF claims skips pool_ok_skip [OF ok] _ this, of 64]
  obtain i st' where "claim_within step 64 (skip_slot st) sec_no = Some (i, st')" "i < 64"
    by auto
  moreover have "claim_within step 65 st sec_no = claim_within step 64 (skip_slot st) sec_no"
    using skips [OF ok True] claim_within.simps(2) [of step 64 st sec_no] by simp
  ultimately show ?thesis by simp
qed

lemma claim_within_mono:
  "claim_within step n st sec_no = Some r \<Longrightarrow> n \<le> m \<Longrightarrow> claim_within step m st sec_no = Some r"
proof (induction n arbitrary: m st)
  case 0
  then show ?case by simp
next
  case (Suc n)
  then obtain k where "m = Suc k" "n \<le> k" by (cases m) auto
  with Suc show ?case by (auto split: claim.splits)
qed

lemma read_claim_within:
  "claim_within read_claim_step n st sec_no = Some r \<Longrightarrow> read_claim st sec_no = Some r"
proof (induction n arbitrary: st)
  case 0
  then show ?case by simp
next
  case (Suc n)
  then show ?case
    by (subst read_claim.simps) (auto split: claim.splits)
qed

lemma write_claim_within:
  "claim_within write_claim_step n st sec_no = Some r \<Longrightarrow> write_claim st sec_no = Some r"
proof (induction n arbitrary: st)
  case 0
  then show ?case by simp
next
  case (Suc n)
  then show ?case
    by (subst write_claim.simps) (auto split: claim.splits)
qed

lemma read_step_loaded:
  "read_claim_step st sec_no = Claimed i st' \<Longrightarrow>
     i < length (BClist st') \<and> buffer (BClist st' ! i) = filesys_disk st' sec_no"
  by (auto simp: read_claim_step_def Let_def disk_read_def split: if_splits)

lemma write_step_loaded:
  "write_claim_step st sec_no = Claimed i st' \<Longrightarrow>
     i < length (BClist st') \<and> buffer (BClist st' ! i) = filesys_disk st' sec_no"
  by (auto simp: write_claim_step_def Let_def disk_read_def split: if_splits)

lemma claim_within_loaded:
  assumes "\<And>st i st'. step st sec_no = Claimed i st' \<Longrightarrow>
             i < length (BClist st') \<and> buffer (BClist st' ! i) = filesys_disk st' sec_no"
  shows "claim_within step n st sec_no = Some (i, st') \<Longrightarrow>
           buffer (BClist st' ! i) = filesys_disk st' sec_no"
  using assms by (induction n arbitrary: st) (auto split: claim.splits)

lemma some_unallocated_not_busy:
  assumes "pool_ok st" and "j < 64" and "\<not> alloc (BClist st ! j)"
  shows "\<exists>t<64. \<not> busy st ((next_BC_to_evict st + t) mod 64)"
proof -
  let ?c = "next_BC_to_evict st"
  from assms(1) have c: "?c < 64" by (simp add: pool_ok_def)
  have "(?c + (j + 64 - ?c) mod 64) mod 64 = (?c + (j + 64 - ?c)) mod 64"
    by (simp add: mod_simps)
  also have "\<dots> = j" using c assms(2) by simp
  finally have "\<not> busy st ((?c + (j + 64 - ?c) mod 64) mod 64)"
    using assms(3) by (simp add: busy_def)
  moreover have "(j + 64 - ?c) mod 64 < 64" by simp
  ultimately show ?thesis by blast
qed

text \<open>On that pool the first revolution only clears the access flags; the slot is claimed
  by the first iteration of the second.\<close>

lemma example_full_second_revolution:
  "claim_within read_claim_step 64 example_full 100 = None
   \<and> map_option fst (claim_within read_claim_step 65 example_full 100) = Some 0
   \<and> claim_within write_claim_step 64 example_full 100 = None
   \<and> map_option fst (claim_within write_claim_step 65 example_full 100) = Some 0"
  by code_simp

text \<open>
  Claim C10. From any state whose pool has its 64 slots and whose cursor is inside the
  pool, the claim loop of \<open>_disk_read\<close> and the claim loop of \<open>_disk_write\<close> return: each
  claims a slot of the pool, loaded with the requested sector, within 128 iterations
  (two revolutions of the cursor); and when some slot is unallocated, a slot is claimed
  within 64 iterations (one revolution).
\<close>

theorem claim_loop_terminates:
  assumes "length (BClist st) = 64" and "next_BC_to_evict st < 64"
  shows "(\<exists>i st'. read_claim st sec_no = Some (i, st') \<and> i < 64
            \<and> claim_within read_claim_step 128 st sec_no = Some (i, st')
            \<and> buffer (BClist st' ! i) = filesys_disk st' sec_no)
       \<and> (\<exists>i st'. write_claim st sec_no = Some (i, st') \<and> i < 64
            \<and> claim_within write_claim_step 128 st sec_no = Some (i, st')
            \<and> buffer (BClist st' ! i) = filesys_disk st' sec_no)
       \<and> ((\<exists>j<64. \<not> alloc (BClist st ! j)) \<longrightarrow>
            claim_within read_claim_step 64 st sec_no = read_claim st sec_no
          \<and> claim_within write_claim_step 64 st sec_no = write_claim st sec_no)"
proof -
  from assms have ok: "pool_ok st" by (simp add: pool_ok_def)
  have r: "\<exists>i st'. read_claim st sec_no = Some (i, st') \<and> i < 64
            \<and> claim_within read_claim_step 128 st sec_no = Some (i, st')
            \<and> buffer (BClist st' ! i) = filesys_disk st' sec_no"
  proof -
    from claim_within_65 [of read_claim_step sec_no st, OF read_step_claims read_step_skips ok]
    obtain i st' where w: "claim_within read_claim_step 65 st sec_no = Some (i, st')" and i: "i < 64"
      by blast
    from claim_within_mono [OF w, of 128]
    have "claim_within read_claim_step 128 st sec_no = Some (i, st')" by simp
    moreover from claim_within_loaded [of read_claim_step sec_no, OF read_step_loaded w]
    have "buffer (BClist st' ! i) = filesys_disk st' sec_no" .
    ultimately show ?thesis using read_claim_within [OF w] i by blast
  qed
  have w: "\<exists>i st'. write_claim st sec_no = Some (i, st') \<and> i < 64
            \<and> claim_within write_claim_step 128 st sec_no = Some (i, st')
            \<and> buffer (BClist st' ! i) = filesys_disk st' sec_no"
  proof -
    from claim_within_65 [of write_claim_step sec_no st, OF write_step_claims write_step_skips ok]
    obtain i st' where w: "claim_within write_claim_step 65 st sec_no = Some (i, st')" and i: "i < 64"
      by blast
    from claim_within_mono [OF w, of 128]
    have "claim_within write_claim_step 128 st sec_no = Some (i, st')" by simp
    moreover from claim_within_loaded [of write_claim_step sec_no, OF write_step_loaded w]
    have "buffer (BClist st' ! i) = filesys_disk st' sec_no" .
    ultimately show ?thesis using write_claim_within [OF w] i by blast
  qed
  have u: "claim_within read_claim_step 64 st sec_no = read_claim st sec_no
          \<and> claim_within write_claim_step 64 st sec_no = write_claim st sec_no"
    if "\<exists>j<64. \<not> alloc (BClist st ! j)"
  proof -
    from that some_unallocated_not_busy [OF ok]
    obtain t where t: "t < 64" "\<not> busy st ((next_BC_to_evict st + t) mod 64)" by blast
    from claim_within_reaches [of read_claim_step sec_no, OF read_step_claims read_step_skips ok t]
    obtain i st' where a: "claim_within read_claim_step 64 st sec_no = Some (i, st')" by blast
    from claim_within_reaches [of write_claim_step sec_no, OF write_step_claims write_step_skips ok t]
    obtain k st'' where b: "claim_within write_claim_step 64 st sec_no = Some (k, st'')" by blast
    show ?thesis
      using a b read_claim_within [OF a] write_claim_within [OF b] by simp
  qed
  from r w u show ?thesis by blast
qed

theorem claim_loop_terminates_witness:
  "length (BClist (inode_init (\<lambda>i. []) (\<lambda>s. replicate 512 0))) = 64
   \<and> next_BC_to_evict (inode_init (\<lambda>i. []) (\<lambda>s. replicate 512 0)) < 64
   \<and> (\<exists>j<64. \<not> alloc (BClist (inode_init (\<lambda>i. []) (\<lambda>s. replicate 512 0)) ! j))
   \<and> (\<exists>i st'. read_claim (inode_init (\<lambda>i. []) (\<lambda>s. replicate 512 0)) 7 = Some (i, st') \<and> i < 64)
   \<and> (\<exists>i st'. write_claim (inode_init (\<lambda>i. []) (\<lambda>s. replicate 512 0)) 7 = Some (i, st') \<and> i < 64)
   \<and> claim_within read_claim_step 64 (inode_init (\<lambda>i. []) (\<lambda>s. replicate 512 0)) 7
       = read_claim (inode_init (\<lambda>i. []) (\<lambda>s. replicate 512 0)) 7
   \<and> claim_within write_claim_step 64 (inode_init (\<lambda>i. []) (\<lambda>s. replicate 512 0)) 7
       = write_claim (inode_init (\<lambda>i. []) (\<lambda>s. replicate 512 0)) 7
   \<and> length (BClist example_full) = 64 \<and> next_BC_to_evict example_full < 64
   \<and> (\<exists>st'. read_claim example_full 100 = Some (0, st')
          \<and> claim_within read_claim_step 128 example_full 100 = Some (0, st')
          \<and> buffer (BClist st' ! 0) = filesys_disk st' 100)
   \<and> (\<exists>st'. write_claim example_full 100 = Some (0, st')
          \<and> claim_within write_claim_step 128 example_full 100 = Some (0, st')
          \<and> buffer (BClist st' ! 0) = filesys_disk st' 100)
   \<and> claim_within read_claim_step 64 example_full 100 = None
   \<and> claim_within write_claim_step 64 example_full 100 = None"
proof -
  let ?st = "inode_init (\<lambda>i. []) (\<lambda>s. replicate 512 0)"
  have len: "length (BClist ?st) = 64" by (simp add: inode_init_def)
  have cur: "next_BC_to_evict ?st < 64" by (simp add: inode_init_def)
  have un: "\<exists>j<64. \<not> alloc (BClist ?st ! j)"
  proof -
    have "(0::nat) < 64 \<and> \<not> alloc (BClist ?st ! 0)"
      by (simp add: inode_init_def)
    then show ?thesis by blast
  qed
  from claim_loop_terminates [OF len cur, of 7] len cur un
  have fresh: "length (BClist ?st) = 64 \<and> next_BC_to_evict ?st < 64
      \<and> (\<exists>j<64. \<not> alloc (BClist ?st ! j))
      \<and> (\<exists>i st'. read_claim ?st 7 = Some (i, st') \<and> i < 64)
      \<and> (\<exists>i st'. write_claim ?st 7 = Some (i, st') \<and> i < 64)
      \<and> claim_within read_claim_step 64 ?st 7 = read_claim ?st 7
      \<and> claim_within write_claim_step 64 ?st 7 = write_claim ?st 7" by blast
  have len': "length (BClist example_full) = 64" by (simp add: example_full_def)
  have cur': "next_BC_to_evict example_full < 64" by (simp add: example_full_def inode_init_def)
  note rev = example_full_second_revolution
  from rev obtain s1 where r65: "claim_within read_claim_step 65 example_full 100 = Some (0, s1)" by auto
  from rev obtain s2 where w65: "claim_within write_claim_step 65 example_full 100 = Some (0, s2)" by auto
  note r = read_claim_within [OF r65] and w = write_claim_within [OF w65]
  from claim_loop_terminates [OF len' cur', of 100] r w
  have full: "(\<exists>st'. read_claim example_full 100 = Some (0, st')
          \<and> claim_within read_claim_step 128 example_full 100 = Some (0, st')
          \<and> buffer (BClist st' ! 0) = filesys_disk st' 100)
   \<and> (\<exists>st'. write_claim example_full 100 = Some (0, st')
          \<and> claim_within write_claim_step 128 example_full 100 = Some (0, st')
          \<and> buffer (BClist st' ! 0) = filesys_disk st' 100)" by auto
  from fresh len' cur' full rev show ?thesis by blast
qed

subsection \<open>Resident sectors are pairwise distinct\<close>

lemma hit_scan_Some:
  "hit_scan bcs s k = Some i \<Longrightarrow>
     k \<le> i \<and> i - k < length bcs \<and> sector (bcs ! (i - k)) = s \<and> (\<forall>j<i - k. sector (bcs ! j) \<noteq> s)"
proof (induction bcs arbitrary: k)
  case Nil
  then show ?case by simp
next
  case (Cons bc bcs)
  show ?case
  proof (cases "sector bc = s")
    case True
    with Cons.prems show ?thesis by simp
  next
    case False
    with Cons.prems have "hit_scan bcs s (Suc k) = Some i" by simp
    from Cons.IH [OF this]
    have ih: "Suc k \<le> i" "i - Suc k < length bcs" "sector (bcs ! (i - Suc k)) = s"
      "\<forall>j<i - Suc k. sector (bcs ! j) \<noteq> s" by simp_all
    from ih(1) have d: "i - k = Suc (i - Suc k)" by simp
    have "\<forall>j<i - k. sector ((bc # bcs) ! j) \<noteq> s"
    proof (intro allI impI)
      fix j assume "j < i - k"
      then show "sector ((bc # bcs) ! j) \<noteq> s"
        using False ih(4) d by (cases j) auto
    qed
    with ih d show ?thesis by simp
  qed
qed

lemma hit_scan_None:
  "hit_scan bcs s k = None \<Longrightarrow> \<forall>j<length bcs. sector (bcs ! j) \<noteq> s"
proof (induction bcs arbitrary: k)
  case Nil
  then show ?case by simp
next
  case (Cons bc bcs)
  then show ?case by (auto simp: nth_Cons' split: if_splits)
qed

lemma cache_inv_init: "cache_inv (inode_init g d)"
  by (simp add: cache_inv_def pool_ok_def inode_init_def)

lemma cache_invD:
  assumes "cache_inv st"
  shows "length (BClist st) = 64" "next_BC_to_evict st < 64"
    "\<And>i. i < 64 \<Longrightarrow> \<not> alloc (BClist st ! i) \<Longrightarrow> sector (BClist st ! i) = NO_SECTOR"
    "\<And>i j. i < 64 \<Longrightarrow> j < 64 \<Longrightarrow> i \<noteq> j \<Longrightarrow> alloc (BClist st ! i) \<Longrightarrow> alloc (BClist st ! j) \<Longrightarrow>
             sector (BClist st ! i) \<noteq> sector (BClist st ! j)"
    "\<And>i j. i < 64 \<Longrightarrow> alloc (BClist st ! i) \<Longrightarrow> sector (BClist st ! i) = NO_SECTOR \<Longrightarrow> j < i \<Longrightarrow>
             alloc (BClist st ! j)"
  using assms unfolding cache_inv_def pool_ok_def by blast+

lemma cache_invI:
  assumes "length (BClist st) = 64" "next_BC_to_evict st < 64"
    "\<And>i. i < 64 \<Longrightarrow> \<not> alloc (BClist st ! i) \<Longrightarrow> sector (BClist st ! i) = NO_SECTOR"
    "\<And>i j. i < 64 \<Longrightarrow> j < 64 \<Longrightarrow> i \<noteq> j \<Longrightarrow> alloc (BClist st ! i) \<Longrightarrow> alloc (BClist st ! j) \<Longrightarrow>
             sector (BClist st ! i) \<noteq> sector (BClist st ! j)"
    "\<And>i j. i < 64 \<Longrightarrow> alloc (BClist st ! i) \<Longrightarrow> sector (BClist st ! i) = NO_SECTOR \<Longrightarrow> j < i \<Longrightarrow>
             alloc (BClist st ! j)"
  shows "cache_inv st"
  unfolding cache_inv_def pool_ok_def using assms by blast

text \<open>Changes that leave every slot's sector and alloc alone.\<close>
lemma cache_inv_same_keys:
  assumes inv: "cache_inv st" and len: "length (BClist st') = 64" and cur: "next_BC_to_evict st' < 64"
    and same: "\<And>i. i < 64 \<Longrightarrow> sector (BClist st' ! i) = sector (BClist st ! i) \<and> alloc (BClist st' ! i) = alloc (BClist st ! i)"
  shows "cache_inv st'"
proof (rule cache_invI [OF len cur])
  fix i assume "i < 64" "\<not> alloc (BClist st' ! i)"
  then show "sector (BClist st' ! i) = NO_SECTOR"
    using cache_invD(3) [OF inv, of i] same [of i] by simp
next
  fix i j assume "i < 64" "j < 64" "i \<noteq> j" "alloc (BClist st' ! i)" "alloc (BClist st' ! j)"
  then show "sector (BClist st' ! i) \<noteq> sector (BClist st' ! j)"
    using cache_invD(4) [OF inv, of i j] same [of i] same [of j] by simp
next
  fix i j assume "i < 64" "alloc (BClist st' ! i)" "sector (BClist st' ! i) = NO_SECTOR" "j < i"
  then show "alloc (BClist st' ! j)"
    using cache_invD(5) [OF inv, of i j] same [of i] same [of j] by simp
qed

lemma cache_inv_claim:
  assumes inv: "cache_inv st" and i: "i < 64"
    and others: "\<And>j. j < 64 \<Longrightarrow> j \<noteq> i \<Longrightarrow> alloc (BClist st ! j) \<Longrightarrow> sector (BClist st ! j) \<noteq> s"
    and before: "\<And>j. s = NO_SECTOR \<Longrightarrow> j < i \<Longrightarrow> alloc (BClist st ! j)"
    and upd: "BClist st' = (BClist st)[i := bc']" "sector bc' = s" "alloc bc'"
    and cur: "next_BC_to_evict st' < 64"
  shows "cache_inv st'"
proof -
  note len = cache_invD(1) [OF inv]
  have nth: "\<And>j. j < 64 \<Longrightarrow> BClist st' ! j = (if j = i then bc' else BClist st ! j)"
    using len upd(1) by (simp add: nth_list_update)
  have len': "length (BClist st') = 64" using len upd(1) by simp
  show ?thesis
  proof (rule cache_invI [OF len' cur])
    fix k assume "k < 64" "\<not> alloc (BClist st' ! k)"
    then show "sector (BClist st' ! k) = NO_SECTOR"
      using cache_invD(3) [OF inv, of k] upd(3) by (simp add: nth split: if_splits)
  next
    fix k j assume kj: "k < 64" "j < 64" "k \<noteq> j" "alloc (BClist st' ! k)" "alloc (BClist st' ! j)"
    show "sector (BClist st' ! k) \<noteq> sector (BClist st' ! j)"
    proof (cases "k = i")
      case True
      with kj have "j \<noteq> i" "alloc (BClist st ! j)" by (simp_all add: nth)
      from others [OF kj(2) this] True kj upd(2) show ?thesis by (simp add: nth)
    next
      case False
      note ki = this
      show ?thesis
      proof (cases "j = i")
        case True
        with kj ki have "alloc (BClist st ! k)" by (simp add: nth)
        from others [OF kj(1) ki this] True kj upd(2) ki show ?thesis by (simp add: nth)
      next
        case False
        with ki kj cache_invD(4) [OF inv, of k j] show ?thesis by (simp add: nth)
      qed
    qed
  next
    fix k j assume kj: "k < 64" "alloc (BClist st' ! k)" "sector (BClist st' ! k) = NO_SECTOR" "j < k"
    then have j: "j < 64" by simp
    show "alloc (BClist st' ! j)"
    proof (cases "j = i")
      case True
      with j upd(3) show ?thesis by (simp add: nth)
    next
      case False
      note ji = this
      show ?thesis
      proof (cases "k = i")
        case True
        with kj upd(2) before [of j] ji j show ?thesis by (simp add: nth)
      next
        case False
        with kj ji j cache_invD(5) [OF inv, of k j] show ?thesis by (simp add: nth)
      qed
    qed
  qed
qed

lemma absent_others:
  "absent st s \<Longrightarrow> j < 64 \<Longrightarrow> sector (BClist st ! j) \<noteq> s"
  by (simp add: absent_def)

lemma absent_all_allocated:
  assumes "cache_inv st" "absent st NO_SECTOR" "j < 64"
  shows "alloc (BClist st ! j)"
  using cache_invD(3) [OF assms(1) assms(3)] absent_others [OF assms(2) assms(3)] by blast

lemma skip_slot_keys:
  "pool_ok st \<Longrightarrow> j < 64 \<Longrightarrow>
     sector (BClist (skip_slot st) ! j) = sector (BClist st ! j)
     \<and> alloc (BClist (skip_slot st) ! j) = alloc (BClist st ! j)"
  by (simp add: pool_ok_def skip_slot_def nth_list_update)

lemma cache_inv_pool_ok: "cache_inv st \<Longrightarrow> pool_ok st"
  by (simp add: cache_inv_def)

lemma cache_inv_skip: "cache_inv st \<Longrightarrow> cache_inv (skip_slot st)"
proof (rule cache_inv_same_keys)
  assume inv: "cache_inv st"
  then show "cache_inv st" .
  from inv have ok: "pool_ok st" by (rule cache_inv_pool_ok)
  from pool_ok_skip [OF ok] show "length (BClist (skip_slot st)) = 64" "next_BC_to_evict (skip_slot st) < 64"
    by (simp_all add: pool_ok_def)
  fix i :: nat assume "i < 64"
  from skip_slot_keys [OF ok this]
  show "sector (BClist (skip_slot st) ! i) = sector (BClist st ! i)
     \<and> alloc (BClist (skip_slot st) ! i) = alloc (BClist st ! i)" .
qed

lemma absent_skip: "pool_ok st \<Longrightarrow> absent st s \<Longrightarrow> absent (skip_slot st) s"
  by (simp add: absent_def skip_slot_keys)

lemma read_step_cases:
  assumes "pool_ok st"
  obtains (skip) "busy st (next_BC_to_evict st)" "read_claim_step st s = Skipped (skip_slot st)"
  | (claim) st' where "\<not> busy st (next_BC_to_evict st)" "read_claim_step st s = Claimed (next_BC_to_evict st) st'"
  using assms read_step_skips [of st s] read_step_claims [of st s] by blast

lemma write_step_cases:
  assumes "pool_ok st"
  obtains (skip) "busy st (next_BC_to_evict st)" "write_claim_step st s = Skipped (skip_slot st)"
  | (claim) st' where "\<not> busy st (next_BC_to_evict st)" "write_claim_step st s = Claimed (next_BC_to_evict st) st'"
  using assms write_step_skips [of st s] write_step_claims [of st s] by blast

lemma read_step_claimed_inv:
  assumes step: "read_claim_step st s = Claimed i st'" and inv: "cache_inv st" and ab: "absent st s"
  shows "cache_inv st' \<and> i < 64"
proof -
  note ok = cache_inv_pool_ok [OF inv]
  from step ok have i: "i = next_BC_to_evict st" "i < 64"
    by (auto simp: read_claim_step_def pool_ok_def Let_def split: if_splits)
  from step ok obtain bc' where upd: "BClist st' = (BClist st)[i := bc']" "sector bc' = s" "alloc bc'"
    and cur: "next_BC_to_evict st' < 64"
    by (auto simp: read_claim_step_def pool_ok_def Let_def split: if_splits)
  have "cache_inv st'"
  proof (rule cache_inv_claim [OF inv i(2) _ _ upd cur])
    fix j :: nat assume "j < 64"
    from absent_others [OF ab this] show "sector (BClist st ! j) \<noteq> s" .
  next
    fix j :: nat assume "s = NO_SECTOR" "j < i"
    with absent_all_allocated [OF inv _, of j] ab i(2) show "alloc (BClist st ! j)" by simp
  qed
  with i show ?thesis by simp
qed

lemma write_step_claimed_inv:
  assumes step: "write_claim_step st s = Claimed i st'" and inv: "cache_inv st" and ab: "absent st s"
  shows "cache_inv st' \<and> absent st' s \<and> i < 64"
proof -
  note ok = cache_inv_pool_ok [OF inv]
  from step ok have i: "i = next_BC_to_evict st" "i < 64"
    by (auto simp: write_claim_step_def pool_ok_def Let_def split: if_splits)
  from step ok have len: "length (BClist st') = 64" and cur: "next_BC_to_evict st' < 64"
    by (auto simp: write_claim_step_def pool_ok_def Let_def split: if_splits)
  from step ok have keys: "\<And>j. j < 64 \<Longrightarrow> sector (BClist st' ! j) = sector (BClist st ! j)
      \<and> alloc (BClist st' ! j) = alloc (BClist st ! j)"
    by (auto simp: write_claim_step_def pool_ok_def Let_def nth_list_update split: if_splits)
  have "cache_inv st'" by (rule cache_inv_same_keys [OF inv len cur keys])
  moreover have "absent st' s" using ab keys by (simp add: absent_def)
  ultimately show ?thesis using i by simp
qed

lemma read_claim_inv:
  "read_claim st s = Some (i, st') \<Longrightarrow> cache_inv st \<Longrightarrow> absent st s \<Longrightarrow> cache_inv st' \<and> i < 64"
proof (induction st s rule: read_claim.induct)
  case (1 st s)
  note ok = cache_inv_pool_ok [OF "1.prems"(2)]
  from ok show ?case
  proof (cases rule: read_step_cases [where s = s])
    case skip
    with "1.prems"(1) have "read_claim (skip_slot st) s = Some (i, st')"
      by (subst (asm) read_claim.simps) simp
    from "1.IH" [OF skip(2) this cache_inv_skip [OF "1.prems"(2)] absent_skip [OF ok "1.prems"(3)]]
    show ?thesis .
  next
    case (claim st'')
    with "1.prems"(1) have "i = next_BC_to_evict st" "st' = st''"
      by (subst (asm) read_claim.simps, simp)+
    with claim read_step_claimed_inv [OF _ "1.prems"(2,3)] show ?thesis by simp
  qed
qed

lemma write_claim_inv:
  "write_claim st s = Some (i, st') \<Longrightarrow> cache_inv st \<Longrightarrow> absent st s \<Longrightarrow>
     cache_inv st' \<and> absent st' s \<and> i < 64"
proof (induction st s rule: write_claim.induct)
  case (1 st s)
  note ok = cache_inv_pool_ok [OF "1.prems"(2)]
  from ok show ?case
  proof (cases rule: write_step_cases [where s = s])
    case skip
    with "1.prems"(1) have "write_claim (skip_slot st) s = Some (i, st')"
      by (subst (asm) write_claim.simps) simp
    from "1.IH" [OF skip(2) this cache_inv_skip [OF "1.prems"(2)] absent_skip [OF ok "1.prems"(3)]]
    show ?thesis .
  next
    case (claim st'')
    with "1.prems"(1) have "i = next_BC_to_evict st" "st' = st''"
      by (subst (asm) write_claim.simps, simp)+
    with claim write_step_claimed_inv [OF _ "1.prems"(2,3)] show ?thesis by simp
  qed
qed

lemma hit_scan_absent:
  assumes "hit_scan (BClist st) s 0 = None" "length (BClist st) = 64"
  shows "absent st s"
  using hit_scan_None [OF assms(1)] assms(2) by (simp add: absent_def)

lemma hit_scan_first:
  assumes "hit_scan (BClist st) s 0 = Some i" "length (BClist st) = 64"
  shows "i < 64" "sector (BClist st ! i) = s" "\<And>j. j < i \<Longrightarrow> sector (BClist st ! j) \<noteq> s"
  using hit_scan_Some [OF assms(1)] assms(2) by simp_all

lemma read_locate_inv:
  assumes loc: "read_locate st s = Some (i, st')" and inv: "cache_inv st"
  shows "cache_inv st' \<and> i < 64"
proof (cases "hit_scan (BClist st) s 0")
  case None
  with loc have "read_claim st s = Some (i, st')" by (simp add: read_locate_def)
  from read_claim_inv [OF this inv hit_scan_absent [OF None cache_invD(1) [OF inv]]]
  show ?thesis .
next
  case (Some k)
  with loc have eq: "k = i" "st' = st\<lparr>BClist := (BClist st)[i := (BClist st ! i)\<lparr>access := True\<rparr>]\<rparr>"
    by (auto simp: read_locate_def)
  note len = cache_invD(1) [OF inv]
  from hit_scan_first(1) [OF Some len] eq have i: "i < 64" by simp
  have "cache_inv st'"
  proof (rule cache_inv_same_keys [OF inv])
    show "length (BClist st') = 64" using eq len by simp
    show "next_BC_to_evict st' < 64" using eq cache_invD(2) [OF inv] by simp
    fix j :: nat assume "j < 64"
    then show "sector (BClist st' ! j) = sector (BClist st ! j) \<and> alloc (BClist st' ! j) = alloc (BClist st ! j)"
      using eq len i by (simp add: nth_list_update)
  qed
  with i show ?thesis by simp
qed

lemma cache_disk_read_inv:
  assumes "cache_disk_read st s ofs len = Some (bytes, st')" and "cache_inv st"
  shows "cache_inv st'"
proof -
  from assms(1) obtain i where "read_locate st s = Some (i, st')"
    by (auto simp: cache_disk_read_def split: option.splits if_splits)
  from read_locate_inv [OF this assms(2)] show ?thesis by simp
qed

lemma write_locate_inv:
  assumes loc: "write_locate st s = Some (i, st')" and inv: "cache_inv st"
  shows "cache_inv st'" "i < 64"
    "\<And>j. j < 64 \<Longrightarrow> j \<noteq> i \<Longrightarrow> alloc (BClist st' ! j) \<Longrightarrow> sector (BClist st' ! j) \<noteq> s"
    "\<And>j. s = NO_SECTOR \<Longrightarrow> j < i \<Longrightarrow> alloc (BClist st' ! j)"
proof -
  note len = cache_invD(1) [OF inv]
  have "cache_inv st' \<and> i < 64
      \<and> (\<forall>j<64. j \<noteq> i \<longrightarrow> alloc (BClist st' ! j) \<longrightarrow> sector (BClist st' ! j) \<noteq> s)
      \<and> (s = NO_SECTOR \<longrightarrow> (\<forall>j<i. alloc (BClist st' ! j)))"
  proof (cases "hit_scan (BClist st) s 0")
    case None
    with loc have "write_claim st s = Some (i, st')" by (simp add: write_locate_def)
    from write_claim_inv [OF this inv hit_scan_absent [OF None len]]
    have r: "cache_inv st'" "absent st' s" "i < 64" by simp_all
    have "\<forall>j<64. j \<noteq> i \<longrightarrow> alloc (BClist st' ! j) \<longrightarrow> sector (BClist st' ! j) \<noteq> s"
      using absent_others [OF r(2)] by blast
    moreover have "s = NO_SECTOR \<longrightarrow> (\<forall>j<i. alloc (BClist st' ! j))"
    proof (intro impI allI)
      fix j assume "s = NO_SECTOR" "j < i"
      with absent_all_allocated [OF r(1), of j] r(2,3) show "alloc (BClist st' ! j)" by simp
    qed
    ultimately show ?thesis using r by blast
  next
    case (Some k)
    with loc have eq: "k = i" "st' = st\<lparr>BClist := (BClist st)[i := (BClist st ! i)\<lparr>dirty := True\<rparr>]\<rparr>"
      by (auto simp: write_locate_def)
    from hit_scan_first [OF Some len] eq
    have i: "i < 64" and si: "sector (BClist st ! i) = s"
      and first: "\<And>j. j < i \<Longrightarrow> sector (BClist st ! j) \<noteq> s" by simp_all
    have keys: "\<And>j. j < 64 \<Longrightarrow> sector (BClist st' ! j) = sector (BClist st ! j)
        \<and> alloc (BClist st' ! j) = alloc (BClist st ! j)"
      using eq len i by (simp add: nth_list_update)
    have inv': "cache_inv st'"
    proof (rule cache_inv_same_keys [OF inv _ _ keys])
      show "length (BClist st') = 64" using eq len by simp
      show "next_BC_to_evict st' < 64" using eq cache_invD(2) [OF inv] by simp
    qed
    have others: "sector (BClist st ! j) \<noteq> s" if j: "j < 64" "j \<noteq> i" "alloc (BClist st ! j)" for j
    proof
      assume sj: "sector (BClist st ! j) = s"
      with first [of j] have ij: "\<not> j < i" by blast
      show False
      proof (cases "alloc (BClist st ! i)")
        case True
        from cache_invD(4) [OF inv j(1) i j(2) j(3) True] sj si show False by simp
      next
        case False
        from cache_invD(3) [OF inv i False] si have "s = NO_SECTOR" by simp
        with sj have "sector (BClist st ! j) = NO_SECTOR" by simp
        from cache_invD(5) [OF inv j(1) j(3) this, of i] ij j(2) False show False by simp
      qed
    qed
    have before: "alloc (BClist st ! j)" if "s = NO_SECTOR" "j < i" for j
    proof -
      from that i have "j < 64" by simp
      from cache_invD(3) [OF inv this] first [OF that(2)] that(1) show ?thesis by blast
    qed
    have "\<forall>j<64. j \<noteq> i \<longrightarrow> alloc (BClist st' ! j) \<longrightarrow> sector (BClist st' ! j) \<noteq> s"
      using others keys by simp
    moreover have "s = NO_SECTOR \<longrightarrow> (\<forall>j<i. alloc (BClist st' ! j))"
      using before keys i by simp
    ultimately show ?thesis using inv' i by blast
  qed
  then show "cache_inv st'" "i < 64"
    "\<And>j. j < 64 \<Longrightarrow> j \<noteq> i \<Longrightarrow> alloc (BClist st' ! j) \<Longrightarrow> sector (BClist st' ! j) \<noteq> s"
    "\<And>j. s = NO_SECTOR \<Longrightarrow> j < i \<Longrightarrow> alloc (BClist st' ! j)"
    by blast+
qed

lemma cache_disk_write_inv:
  assumes w: "cache_disk_write st s src ofs len = Some st'" and inv: "cache_inv st"
  shows "cache_inv st'"
proof -
  from w obtain i st1 where loc: "write_locate st s = Some (i, st1)"
    and st': "st' = st1\<lparr>BClist := (BClist st1)[i := (BClist st1 ! i)\<lparr>buffer := patch (buffer (BClist st1 ! i)) (nat ofs) (take (nat len) src),
                                     sector := s, alloc := True, access := True\<rparr>]\<rparr>"
    by (auto simp: cache_disk_write_def Let_def split: option.splits if_splits)
  note l = write_locate_inv [OF loc inv]
  show ?thesis
  proof (rule cache_inv_claim [OF l(1) l(2) l(3) l(4)])
    show "BClist st' = (BClist st1)[i := (BClist st1 ! i)\<lparr>buffer := patch (buffer (BClist st1 ! i)) (nat ofs) (take (nat len) src),
                                     sector := s, alloc := True, access := True\<rparr>]"
      using st' by simp
    show "next_BC_to_evict st' < 64" using st' cache_invD(2) [OF l(1)] by simp
  qed simp_all
qed

lemma run_ops_inv:
  "run_ops st xs = Some st' \<Longrightarrow> cache_inv st \<Longrightarrow> cache_inv st'"
proof (induction xs arbitrary: st)
  case Nil
  then show ?case by simp
next
  case (Cons x xs)
  from Cons.prems(1) obtain st1 where a: "apply_op st x = Some st1" and r: "run_ops st1 xs = Some st'"
    by (auto split: option.splits)
  have "cache_inv st1"
  proof (cases x)
    case (ReadThrough s ofs len)
    with a obtain bytes where "cache_disk_read st s ofs len = Some (bytes, st1)" by auto
    from cache_disk_read_inv [OF this Cons.prems(2)] show ?thesis .
  next
    case (WriteThrough s src ofs len)
    with a have "cache_disk_write st s src ofs len = Some st1" by simp
    from cache_disk_write_inv [OF this Cons.prems(2)] show ?thesis .
  qed
  from Cons.IH [OF r this] show ?case .
qed

lemma resident_card: "card (resident st) \<le> length (BClist st)"
proof -
  have "card (resident st) \<le> card {bc \<in> set (BClist st). alloc bc}"
    unfolding resident_def by (rule card_image_le) simp
  also have "\<dots> \<le> card (set (BClist st))"
    by (rule card_mono) auto
  also have "\<dots> \<le> length (BClist st)" by (rule card_length)
  finally show ?thesis .
qed

lemma read_claim_total:
  assumes "pool_ok st"
  shows "\<exists>i st'. read_claim st s = Some (i, st')"
proof -
  from claim_within_65 [of read_claim_step s st, OF read_step_claims read_step_skips assms]
  obtain i st' where "claim_within read_claim_step 65 st s = Some (i, st')" by blast
  from read_claim_within [OF this] show ?thesis by blast
qed

lemma write_claim_total:
  assumes "pool_ok st"
  shows "\<exists>i st'. write_claim st s = Some (i, st')"
proof -
  from claim_within_65 [of write_claim_step s st, OF write_step_claims write_step_skips assms]
  obtain i st' where "claim_within write_claim_step 65 st s = Some (i, st')" by blast
  from write_claim_within [OF this] show ?thesis by blast
qed

lemma cache_disk_read_Some:
  assumes "pool_ok st" "in_slot ofs len"
  shows "\<exists>bytes st'. cache_disk_read st s ofs len = Some (bytes, st')"
proof -
  from read_claim_total [OF assms(1), of s] have "\<exists>i st'. read_locate st s = Some (i, st')"
    by (auto simp: read_locate_def split: option.splits)
  with assms(2) show ?thesis by (auto simp: cache_disk_read_def)
qed

lemma cache_disk_write_Some:
  assumes "pool_ok st" "in_slot ofs len" "nat len \<le> length src"
  shows "\<exists>st'. cache_disk_write st s src ofs len = Some st'"
proof -
  from write_claim_total [OF assms(1), of s] have "\<exists>i st'. write_locate st s = Some (i, st')"
    by (auto simp: write_locate_def split: option.splits)
  with assms(2,3) show ?thesis by (auto simp: cache_disk_write_def Let_def)
qed

lemma apply_op_Some:
  assumes "pool_ok st" "op_in_contract x"
  shows "\<exists>st'. apply_op st x = Some st'"
proof (cases x)
  case (ReadThrough s ofs len)
  with assms cache_disk_read_Some [of st ofs len s] show ?thesis by auto
next
  case (WriteThrough s src ofs len)
  with assms cache_disk_write_Some [of st ofs len src s] show ?thesis by auto
qed

lemma apply_op_inv:
  assumes a: "apply_op st x = Some st1" and inv: "cache_inv st"
  shows "cache_inv st1"
proof (cases x)
  case (ReadThrough s ofs len)
  with a obtain bytes where "cache_disk_read st s ofs len = Some (bytes, st1)" by auto
  from cache_disk_read_inv [OF this inv] show ?thesis .
next
  case (WriteThrough s src ofs len)
  with a have "cache_disk_write st s src ofs len = Some st1" by simp
  from cache_disk_write_inv [OF this inv] show ?thesis .
qed

lemma run_ops_Some:
  "cache_inv st \<Longrightarrow> list_all op_in_contract xs \<Longrightarrow> \<exists>st'. run_ops st xs = Some st'"
proof (induction xs arbitrary: st)
  case Nil
  then show ?case by simp
next
  case (Cons x xs)
  from apply_op_Some [OF cache_inv_pool_ok [OF Cons.prems(1)], of x] Cons.prems(2)
  obtain st1 where a: "apply_op st x = Some st1" by auto
  from Cons.IH [OF apply_op_inv [OF a Cons.prems(1)]] Cons.prems(2) a show ?case by simp
qed

text \<open>
  Claim C2. After \<open>inode_init\<close> and after every sequence of \<open>_disk_read\<close> and \<open>_disk_write\<close>
  calls that returns, the pool still has its 64 slots, so at most 64 sectors are
  resident, and no two slots with the \<open>alloc\<close> flag set hold the same sector number.
\<close>

theorem resident_sectors_distinct:
  assumes "run_ops (inode_init garbage d) xs = Some st"
  shows "length (BClist st) = 64 \<and> card (resident st) \<le> 64
       \<and> (\<forall>i<64. \<forall>j<64. i \<noteq> j \<longrightarrow> alloc (BClist st ! i) \<longrightarrow> alloc (BClist st ! j) \<longrightarrow>
             sector (BClist st ! i) \<noteq> sector (BClist st ! j))"
proof -
  from run_ops_inv [OF assms cache_inv_init] have inv: "cache_inv st" .
  from cache_invD(1) [OF inv] resident_card [of st] cache_invD(4) [OF inv]
  show ?thesis by simp
qed

theorem resident_sectors_distinct_witness:
  "\<exists>st. run_ops (inode_init (\<lambda>i. []) (\<lambda>s. replicate 512 0))
            [WriteThrough 3 [1, 2] 0 2, ReadThrough 4 0 1, WriteThrough 3 [5] 7 1] = Some st
        \<and> length (BClist st) = 64 \<and> card (resident st) \<le> 64
        \<and> (\<forall>i<64. \<forall>j<64. i \<noteq> j \<longrightarrow> alloc (BClist st ! i) \<longrightarrow> alloc (BClist st ! j) \<longrightarrow>
             sector (BClist st ! i) \<noteq> sector (BClist st ! j))"
proof -
  have "list_all op_in_contract [WriteThrough 3 [1, 2] 0 2, ReadThrough 4 0 1, WriteThrough 3 [5] 7 1]"
    by (simp add: in_slot_def DISK_SECTOR_SIZE_def)
  from run_ops_Some [OF cache_inv_init this]
  obtain st where r: "run_ops (inode_init (\<lambda>i. []) (\<lambda>s. replicate 512 0))
            [WriteThrough 3 [1, 2] 0 2, ReadThrough 4 0 1, WriteThrough 3 [5] 7 1] = Some st"
    by blast
  from resident_sectors_distinct [OF r] r show ?thesis by blast
qed

subsection \<open>No write is lost across evictions\<close>

lemma data_invD:
  assumes "data_inv st"
  shows "cache_inv st"
    "\<And>i. i < 64 \<Longrightarrow> alloc (BClist st ! i) \<Longrightarrow> sector (BClist st ! i) \<noteq> NO_SECTOR"
    "\<And>i. i < 64 \<Longrightarrow> alloc (BClist st ! i) \<Longrightarrow> \<not> dirty (BClist st ! i) \<Longrightarrow>
             buffer (BClist st ! i) = filesys_disk st (sector (BClist st ! i))"
    "\<And>i. i < 64 \<Longrightarrow> alloc (BClist st ! i) \<Longrightarrow> length (buffer (BClist st ! i)) = DISK_SECTOR_SIZE"
    "\<And>s. length (filesys_disk st s) = DISK_SECTOR_SIZE"
  using assms unfolding data_inv_def by blast+

lemma data_invI:
  assumes "cache_inv st"
    "\<And>i. i < 64 \<Longrightarrow> alloc (BClist st ! i) \<Longrightarrow> sector (BClist st ! i) \<noteq> NO_SECTOR"
    "\<And>i. i < 64 \<Longrightarrow> alloc (BClist st ! i) \<Longrightarrow> \<not> dirty (BClist st ! i) \<Longrightarrow>
             buffer (BClist st ! i) = filesys_disk st (sector (BClist st ! i))"
    "\<And>i. i < 64 \<Longrightarrow> alloc (BClist st ! i) \<Longrightarrow> length (buffer (BClist st ! i)) = DISK_SECTOR_SIZE"
    "\<And>s. length (filesys_disk st s) = DISK_SECTOR_SIZE"
  shows "data_inv st"
  unfolding data_inv_def using assms by blast

lemma view_cached:
  assumes inv: "cache_inv st" and i: "i < 64" and a: "alloc (BClist st ! i)"
  shows "view st (sector (BClist st ! i)) = buffer (BClist st ! i)"
proof -
  note len = cache_invD(1) [OF inv]
  have "find (\<lambda>bc. alloc bc \<and> sector bc = sector (BClist st ! i)) (BClist st) = Some (BClist st ! i)"
    unfolding find_Some_iff
  proof (intro exI [of _ i] conjI allI impI)
    show "i < length (BClist st)" using i len by simp
    show "alloc (BClist st ! i)" by (rule a)
    fix j assume ji: "j < i"
    with i have j: "j < 64" by simp
    show "\<not> (alloc (BClist st ! j) \<and> sector (BClist st ! j) = sector (BClist st ! i))"
      using cache_invD(4) [OF inv j i _ _ a] ji by blast
  qed simp_all
  then show ?thesis by (simp add: view_def cached_def)
qed

lemma view_uncached:
  assumes len: "length (BClist st) = 64"
    and no: "\<And>i. i < 64 \<Longrightarrow> alloc (BClist st ! i) \<Longrightarrow> sector (BClist st ! i) \<noteq> t"
  shows "view st t = filesys_disk st t"
proof -
  have "find (\<lambda>bc. alloc bc \<and> sector bc = t) (BClist st) = None"
    unfolding find_None_iff using no len by (auto simp: in_set_conv_nth)
  then show ?thesis by (simp add: view_def cached_def)
qed

lemma view_init: "view (inode_init g d) = d"
proof
  fix t
  show "view (inode_init g d) t = d t"
    using view_uncached [of "inode_init g d" t] by (simp add: inode_init_def)
qed

lemma data_inv_init:
  assumes "\<And>s. length (d s) = DISK_SECTOR_SIZE"
  shows "data_inv (inode_init g d)"
proof (rule data_invI [OF cache_inv_init])
  fix s show "length (filesys_disk (inode_init g d) s) = DISK_SECTOR_SIZE"
    using assms by (simp add: inode_init_def)
qed (simp_all add: inode_init_def)

text \<open>Slot \<open>i\<close> is replaced by \<open>bc'\<close>, which holds sector \<open>s\<close>; what the slot held before is
  written back when it was allocated and dirty; no other slot holds \<open>s\<close>.\<close>

lemma install:
  assumes inv: "data_inv st" and i: "i < 64" and s: "s \<noteq> NO_SECTOR"
    and others: "\<And>j. j < 64 \<Longrightarrow> j \<noteq> i \<Longrightarrow> alloc (BClist st ! j) \<Longrightarrow> sector (BClist st ! j) \<noteq> s"
    and upd: "BClist st' = (BClist st)[i := bc']" "sector bc' = s" "alloc bc'"
    and cur: "next_BC_to_evict st' < 64"
    and disk: "filesys_disk st' = (if alloc (BClist st ! i) \<and> dirty (BClist st ! i) \<and> sector (BClist st ! i) \<noteq> s
                 then (filesys_disk st)(sector (BClist st ! i) := buffer (BClist st ! i))
                 else filesys_disk st)"
    and clean: "\<not> dirty bc' \<Longrightarrow> buffer bc' = filesys_disk st' s"
    and blen: "length (buffer bc') = DISK_SECTOR_SIZE"
  shows "data_inv st'" "view st' = (view st)(s := buffer bc')"
proof -
  note cinv = data_invD(1) [OF inv]
  note len = cache_invD(1) [OF cinv]
  let ?old = "BClist st ! i"
  have nth: "\<And>j. j < 64 \<Longrightarrow> BClist st' ! j = (if j = i then bc' else BClist st ! j)"
    using len upd(1) by (simp add: nth_list_update)
  have len': "length (BClist st') = 64" using len upd(1) by simp
  have cinv': "cache_inv st'"
  proof (rule cache_inv_claim [OF cinv i others _ upd cur])
    fix j :: nat assume "s = NO_SECTOR" with s show "alloc (BClist st ! j)" by simp
  qed
  have other_sector: "sector (BClist st ! j) \<noteq> sector ?old"
    if "j < 64" "j \<noteq> i" "alloc (BClist st ! j)" "alloc ?old" for j
    using cache_invD(4) [OF cinv that(1) i that(2) that(3) that(4)] .
  show dinv': "data_inv st'"
  proof (rule data_invI [OF cinv'])
    fix j assume j: "j < 64" "alloc (BClist st' ! j)"
    show "sector (BClist st' ! j) \<noteq> NO_SECTOR"
      using j s upd(2) data_invD(2) [OF inv, of j] by (simp add: nth split: if_splits)
    show "length (buffer (BClist st' ! j)) = DISK_SECTOR_SIZE"
      using j blen data_invD(4) [OF inv, of j] by (simp add: nth split: if_splits)
    assume nd: "\<not> dirty (BClist st' ! j)"
    show "buffer (BClist st' ! j) = filesys_disk st' (sector (BClist st' ! j))"
    proof (cases "j = i")
      case True
      with j nd clean upd(2) show ?thesis by (simp add: nth)
    next
      case False
      with j nd have a: "alloc (BClist st ! j)" "\<not> dirty (BClist st ! j)" by (simp_all add: nth)
      have "filesys_disk st' (sector (BClist st ! j)) = filesys_disk st (sector (BClist st ! j))"
        using disk other_sector [OF j(1) False a(1)] by simp
      with data_invD(3) [OF inv j(1) a] False j(1) show ?thesis by (simp add: nth)
    qed
  next
    fix t show "length (filesys_disk st' t) = DISK_SECTOR_SIZE"
      using disk data_invD(5) [OF inv] data_invD(4) [OF inv i] by simp
  qed
  show "view st' = (view st)(s := buffer bc')"
  proof
    fix t
    show "view st' t = ((view st)(s := buffer bc')) t"
    proof (cases "t = s")
      case True
      have "view st' (sector (BClist st' ! i)) = buffer (BClist st' ! i)"
        by (rule view_cached [OF cinv' i]) (simp add: nth i upd(3))
      with True upd(2) i show ?thesis by (simp add: nth)
    next
      case False
      note ts = this
      show ?thesis
      proof (cases "\<exists>j<64. j \<noteq> i \<and> alloc (BClist st ! j) \<and> sector (BClist st ! j) = t")
        case True
        then obtain j where j: "j < 64" "j \<noteq> i" "alloc (BClist st ! j)" "sector (BClist st ! j) = t"
          by blast
        have "view st (sector (BClist st ! j)) = buffer (BClist st ! j)"
          by (rule view_cached [OF cinv j(1) j(3)])
        moreover have "view st' (sector (BClist st' ! j)) = buffer (BClist st' ! j)"
          by (rule view_cached [OF cinv' j(1)]) (simp add: nth j)
        ultimately show ?thesis using j ts by (simp add: nth)
      next
        case False
        then have nj: "\<And>j. j < 64 \<Longrightarrow> j \<noteq> i \<Longrightarrow> alloc (BClist st ! j) \<Longrightarrow> sector (BClist st ! j) \<noteq> t"
          by blast
        have v': "view st' t = filesys_disk st' t"
        proof (rule view_uncached [OF len'])
          fix j assume "j < 64" "alloc (BClist st' ! j)"
          then show "sector (BClist st' ! j) \<noteq> t"
            using nj [of j] ts upd(2) by (simp add: nth split: if_splits)
        qed
        show ?thesis
        proof (cases "alloc ?old \<and> sector ?old = t")
          case True
          then have old: "alloc ?old" "sector ?old = t" by simp_all
          have v: "view st t = buffer ?old"
            using view_cached [OF cinv i old(1)] old(2) by simp
          have "filesys_disk st' t = buffer ?old"
          proof (cases "dirty ?old")
            case True
            with disk old ts show ?thesis by simp
          next
            case False
            with disk have "filesys_disk st' = filesys_disk st" by simp
            with data_invD(3) [OF inv i old(1) False] old(2) show ?thesis by simp
          qed
          with v v' ts show ?thesis by simp
        next
          case False
          have v: "view st t = filesys_disk st t"
          proof (rule view_uncached [OF len])
            fix j assume "j < 64" "alloc (BClist st ! j)"
            then show "sector (BClist st ! j) \<noteq> t"
              using nj [of j] False by (cases "j = i") auto
          qed
          have "filesys_disk st' t = filesys_disk st t"
            using disk False by auto
          with v v' ts show ?thesis by simp
        qed
      qed
    qed
  qed
qed

lemma skip_slot_data:
  assumes inv: "data_inv st" and b: "busy st (next_BC_to_evict st)"
  shows "data_inv (skip_slot st)" "view (skip_slot st) = view st"
proof -
  note cinv = data_invD(1) [OF inv]
  let ?c = "next_BC_to_evict st"
  let ?old = "BClist st ! ?c"
  note c = cache_invD(2) [OF cinv]
  from b have a: "alloc ?old" by (simp add: busy_def)
  have i: "data_inv (skip_slot st) \<and> view (skip_slot st) = (view st)(sector ?old := buffer (?old\<lparr>access := False\<rparr>))"
  proof (intro conjI)
    show "data_inv (skip_slot st)"
    proof (rule install(1) [OF inv c data_invD(2) [OF inv c a], where bc' = "?old\<lparr>access := False\<rparr>"])
      fix j assume "j < 64" "j \<noteq> ?c" "alloc (BClist st ! j)"
      from cache_invD(4) [OF cinv this(1) c this(2) this(3) a]
      show "sector (BClist st ! j) \<noteq> sector ?old" .
    next
      assume "\<not> dirty (?old\<lparr>access := False\<rparr>)"
      with data_invD(3) [OF inv c a]
      show "buffer (?old\<lparr>access := False\<rparr>) = filesys_disk (skip_slot st) (sector ?old)"
        by (simp add: skip_slot_def)
    qed (simp_all add: skip_slot_def a data_invD(4) [OF inv c a])
    show "view (skip_slot st) = (view st)(sector ?old := buffer (?old\<lparr>access := False\<rparr>))"
    proof (rule install(2) [OF inv c data_invD(2) [OF inv c a], where bc' = "?old\<lparr>access := False\<rparr>"])
      fix j assume "j < 64" "j \<noteq> ?c" "alloc (BClist st ! j)"
      from cache_invD(4) [OF cinv this(1) c this(2) this(3) a]
      show "sector (BClist st ! j) \<noteq> sector ?old" .
    next
      assume "\<not> dirty (?old\<lparr>access := False\<rparr>)"
      with data_invD(3) [OF inv c a]
      show "buffer (?old\<lparr>access := False\<rparr>) = filesys_disk (skip_slot st) (sector ?old)"
        by (simp add: skip_slot_def)
    qed (simp_all add: skip_slot_def a data_invD(4) [OF inv c a])
  qed
  then show "data_inv (skip_slot st)" by simp
  have "(view st)(sector ?old := buffer ?old) = view st"
    by (rule fun_upd_idem) (rule view_cached [OF cinv c a])
  with i show "view (skip_slot st) = view st" by simp
qed

lemma read_claim_decomp:
  "read_claim st s = Some (i, st') \<Longrightarrow> data_inv st \<Longrightarrow> absent st s \<Longrightarrow>
     \<exists>st0. data_inv st0 \<and> absent st0 s \<and> view st0 = view st \<and> read_claim_step st0 s = Claimed i st'"
proof (induction st s rule: read_claim.induct)
  case (1 st s)
  note ok = cache_inv_pool_ok [OF data_invD(1) [OF "1.prems"(2)]]
  from ok show ?case
  proof (cases rule: read_step_cases [where s = s])
    case skip
    with "1.prems"(1) have "read_claim (skip_slot st) s = Some (i, st')"
      by (subst (asm) read_claim.simps) simp
    from "1.IH" [OF skip(2) this skip_slot_data(1) [OF "1.prems"(2) skip(1)] absent_skip [OF ok "1.prems"(3)]]
      skip_slot_data(2) [OF "1.prems"(2) skip(1)]
    show ?thesis by simp
  next
    case (claim st'')
    with "1.prems"(1) have "i = next_BC_to_evict st" "st' = st''"
      by (subst (asm) read_claim.simps, simp)+
    with claim "1.prems"(2,3) show ?thesis by blast
  qed
qed

lemma write_claim_decomp:
  "write_claim st s = Some (i, st') \<Longrightarrow> data_inv st \<Longrightarrow> absent st s \<Longrightarrow>
     \<exists>st0. data_inv st0 \<and> absent st0 s \<and> view st0 = view st \<and> write_claim_step st0 s = Claimed i st'"
proof (induction st s rule: write_claim.induct)
  case (1 st s)
  note ok = cache_inv_pool_ok [OF data_invD(1) [OF "1.prems"(2)]]
  from ok show ?case
  proof (cases rule: write_step_cases [where s = s])
    case skip
    with "1.prems"(1) have "write_claim (skip_slot st) s = Some (i, st')"
      by (subst (asm) write_claim.simps) simp
    from "1.IH" [OF skip(2) this skip_slot_data(1) [OF "1.prems"(2) skip(1)] absent_skip [OF ok "1.prems"(3)]]
      skip_slot_data(2) [OF "1.prems"(2) skip(1)]
    show ?thesis by simp
  next
    case (claim st'')
    with "1.prems"(1) have "i = next_BC_to_evict st" "st' = st''"
      by (subst (asm) write_claim.simps, simp)+
    with claim "1.prems"(2,3) show ?thesis by blast
  qed
qed

lemma read_step_claimed_shape:
  assumes "read_claim_step st s = Claimed i st'" "pool_ok st"
  shows "i < 64"
    "BClist st' = (BClist st)[i := (BClist st ! i)\<lparr>buffer := filesys_disk st' s, sector := s,
                     alloc := True, access := False, dirty := False\<rparr>]"
    "next_BC_to_evict st' < 64"
    "filesys_disk st' = (if alloc (BClist st ! i) \<and> dirty (BClist st ! i)
                 then (filesys_disk st)(sector (BClist st ! i) := buffer (BClist st ! i))
                 else filesys_disk st)"
  using assms
  by (auto simp: read_claim_step_def pool_ok_def Let_def disk_read_def disk_write_def split: if_splits)

lemma write_step_claimed_shape:
  assumes "write_claim_step st s = Claimed i st'" "pool_ok st"
  shows "i < 64"
    "BClist st' = (BClist st)[i := (BClist st ! i)\<lparr>buffer := filesys_disk st' s, dirty := True\<rparr>]"
    "next_BC_to_evict st' < 64"
    "filesys_disk st' = (if alloc (BClist st ! i) \<and> dirty (BClist st ! i)
                 then (filesys_disk st)(sector (BClist st ! i) := buffer (BClist st ! i))
                 else filesys_disk st)"
  using assms
  by (auto simp: write_claim_step_def pool_ok_def Let_def disk_read_def disk_write_def split: if_splits)

lemma flushed_disk:
  assumes inv: "data_inv st" and i: "i < 64" and ab: "absent st s"
    and disk: "d' = (if alloc (BClist st ! i) \<and> dirty (BClist st ! i)
                 then (filesys_disk st)(sector (BClist st ! i) := buffer (BClist st ! i))
                 else filesys_disk st)"
  shows "d' = (if alloc (BClist st ! i) \<and> dirty (BClist st ! i) \<and> sector (BClist st ! i) \<noteq> s
                 then (filesys_disk st)(sector (BClist st ! i) := buffer (BClist st ! i))
                 else filesys_disk st)"
    "d' s = view st s" "length (d' s) = DISK_SECTOR_SIZE"
proof -
  from absent_others [OF ab i] have ne: "sector (BClist st ! i) \<noteq> s" .
  with disk show "d' = (if alloc (BClist st ! i) \<and> dirty (BClist st ! i) \<and> sector (BClist st ! i) \<noteq> s
                 then (filesys_disk st)(sector (BClist st ! i) := buffer (BClist st ! i))
                 else filesys_disk st)" by simp
  have v: "view st s = filesys_disk st s"
    by (rule view_uncached [OF cache_invD(1) [OF data_invD(1) [OF inv]]]) (rule absent_others [OF ab])
  from disk ne have d: "d' s = filesys_disk st s" by simp
  with v show "d' s = view st s" by simp
  from d data_invD(5) [OF inv, of s] show "length (d' s) = DISK_SECTOR_SIZE" by simp
qed

lemma read_locate_view:
  assumes inv: "data_inv st" and s: "s \<noteq> NO_SECTOR"
  shows "\<exists>i st'. read_locate st s = Some (i, st') \<and> data_inv st' \<and> view st' = view st
            \<and> buffer (BClist st' ! i) = view st s"
proof -
  note cinv = data_invD(1) [OF inv]
  note len = cache_invD(1) [OF cinv]
  show ?thesis
  proof (cases "hit_scan (BClist st) s 0")
    case (Some i)
    let ?old = "BClist st ! i"
    let ?bc = "?old\<lparr>access := True\<rparr>"
    let ?st' = "st\<lparr>BClist := (BClist st)[i := ?bc]\<rparr>"
    from hit_scan_first [OF Some len] have i: "i < 64" and si: "sector ?old = s" by simp_all
    from cache_invD(3) [OF cinv i] si s have a: "alloc ?old" by auto
    have others: "sector (BClist st ! j) \<noteq> s" if "j < 64" "j \<noteq> i" "alloc (BClist st ! j)" for j
      using cache_invD(4) [OF cinv that(1) i that(2) that(3) a] si by simp
    have loc: "read_locate st s = Some (i, ?st')" using Some by (simp add: read_locate_def)
    have d: "data_inv ?st'"
      by (rule install(1) [OF inv i s others, where bc' = ?bc])
         (simp_all add: si a cache_invD(2) [OF cinv] data_invD(3) [OF inv i a] data_invD(4) [OF inv i a])
    have "view ?st' = (view st)(s := buffer ?bc)"
      by (rule install(2) [OF inv i s others, where bc' = ?bc])
         (simp_all add: si a cache_invD(2) [OF cinv] data_invD(3) [OF inv i a] data_invD(4) [OF inv i a])
    moreover have vs: "view st s = buffer ?old" using view_cached [OF cinv i a] si by simp
    then have "(view st)(s := buffer ?bc) = view st" by (simp add: fun_upd_idem)
    ultimately have v: "view ?st' = view st" by simp
    have "buffer (BClist ?st' ! i) = view st s" using vs i len by simp
    with loc d v show ?thesis by blast
  next
    case None
    note ab = hit_scan_absent [OF None len]
    from read_claim_total [OF cache_inv_pool_ok [OF cinv], of s]
    obtain i st' where rc: "read_claim st s = Some (i, st')" by blast
    from read_claim_decomp [OF rc inv ab]
    obtain st0 where st0: "data_inv st0" "absent st0 s" "view st0 = view st"
      "read_claim_step st0 s = Claimed i st'" by blast
    note sh = read_step_claimed_shape [OF st0(4) cache_inv_pool_ok [OF data_invD(1) [OF st0(1)]]]
    note fl = flushed_disk [OF st0(1) sh(1) st0(2) sh(4)]
    let ?bc = "(BClist st0 ! i)\<lparr>buffer := filesys_disk st' s, sector := s,
                     alloc := True, access := False, dirty := False\<rparr>"
    have d: "data_inv st'"
      by (rule install(1) [OF st0(1) sh(1) s absent_others [OF st0(2)] sh(2) _ _ sh(3) fl(1)])
         (simp_all add: fl(3))
    have "view st' = (view st0)(s := buffer ?bc)"
      by (rule install(2) [OF st0(1) sh(1) s absent_others [OF st0(2)] sh(2) _ _ sh(3) fl(1)])
         (simp_all add: fl(3))
    with fl(2) have v: "view st' = view st0" by (simp add: fun_upd_idem)
    have "buffer (BClist st' ! i) = filesys_disk st' s"
      using sh(1,2) cache_invD(1) [OF data_invD(1) [OF st0(1)]] by simp
    with fl(2) st0(3) have "buffer (BClist st' ! i) = view st s" by simp
    moreover have "read_locate st s = Some (i, st')" using None rc by (simp add: read_locate_def)
    ultimately show ?thesis using d v st0(3) by auto
  qed
qed

lemma cache_disk_read_view:
  assumes inv: "data_inv st" and s: "s \<noteq> NO_SECTOR" and io: "in_slot ofs len"
  shows "\<exists>st'. cache_disk_read st s ofs len = Some (take (nat len) (drop (nat ofs) (view st s)), st')
            \<and> data_inv st' \<and> view st' = view st"
proof -
  from read_locate_view [OF inv s]
  obtain i st' where "read_locate st s = Some (i, st')" "data_inv st'" "view st' = view st"
    "buffer (BClist st' ! i) = view st s" by blast
  with io show ?thesis by (simp add: cache_disk_read_def)
qed

lemma length_patch:
  "ofs + length bytes \<le> length buf \<Longrightarrow> length (patch buf ofs bytes) = length buf"
  by (simp add: patch_def)

lemma in_slot_fits:
  assumes "in_slot ofs len" "nat len \<le> length src"
  shows "nat ofs + length (take (nat len) src) \<le> DISK_SECTOR_SIZE"
proof -
  from assms(1) have "nat ofs + nat len = nat (ofs + len)"
    by (simp add: in_slot_def nat_add_distrib)
  moreover from assms(1) have "nat (ofs + len) \<le> DISK_SECTOR_SIZE"
    by (simp add: in_slot_def nat_le_iff)
  ultimately show ?thesis using assms(2) by (simp add: min_def)
qed

lemma cache_disk_write_view:
  assumes inv: "data_inv st" and s: "s \<noteq> NO_SECTOR" and io: "in_slot ofs len" "nat len \<le> length src"
  shows "\<exists>st'. cache_disk_write st s src ofs len = Some st' \<and> data_inv st'
            \<and> view st' = (view st)(s := patch (view st s) (nat ofs) (take (nat len) src))"
proof -
  note cinv = data_invD(1) [OF inv]
  note len = cache_invD(1) [OF cinv]
  note fits = in_slot_fits [OF io]
  let ?p = "\<lambda>buf. patch buf (nat ofs) (take (nat len) src)"
  show ?thesis
  proof (cases "hit_scan (BClist st) s 0")
    case (Some i)
    let ?old = "BClist st ! i"
    let ?bc = "?old\<lparr>dirty := True, buffer := ?p (buffer ?old), sector := s, alloc := True, access := True\<rparr>"
    let ?st' = "st\<lparr>BClist := (BClist st)[i := ?bc]\<rparr>"
    from hit_scan_first [OF Some len] have i: "i < 64" and si: "sector ?old = s" by simp_all
    from cache_invD(3) [OF cinv i] si s have a: "alloc ?old" by auto
    have others: "sector (BClist st ! j) \<noteq> s" if "j < 64" "j \<noteq> i" "alloc (BClist st ! j)" for j
      using cache_invD(4) [OF cinv that(1) i that(2) that(3) a] si by simp
    have w: "cache_disk_write st s src ofs len = Some ?st'"
      using Some io i len by (simp add: cache_disk_write_def write_locate_def Let_def)
    have bl: "length (?p (buffer ?old)) = DISK_SECTOR_SIZE"
      using fits data_invD(4) [OF inv i a] by (simp add: length_patch)
    have d: "data_inv ?st'"
      by (rule install(1) [OF inv i s others, where bc' = ?bc])
         (simp_all add: si a cache_invD(2) [OF cinv] bl)
    have "view ?st' = (view st)(s := buffer ?bc)"
      by (rule install(2) [OF inv i s others, where bc' = ?bc])
         (simp_all add: si a cache_invD(2) [OF cinv] bl)
    moreover have "view st s = buffer ?old" using view_cached [OF cinv i a] si by simp
    ultimately have "view ?st' = (view st)(s := ?p (view st s))" by simp
    with w d show ?thesis by blast
  next
    case None
    note ab = hit_scan_absent [OF None len]
    from write_claim_total [OF cache_inv_pool_ok [OF cinv], of s]
    obtain i st1 where wc: "write_claim st s = Some (i, st1)" by blast
    from write_claim_decomp [OF wc inv ab]
    obtain st0 where st0: "data_inv st0" "absent st0 s" "view st0 = view st"
      "write_claim_step st0 s = Claimed i st1" by blast
    note sh = write_step_claimed_shape [OF st0(4) cache_inv_pool_ok [OF data_invD(1) [OF st0(1)]]]
    note fl = flushed_disk [OF st0(1) sh(1) st0(2) sh(4)]
    note len0 = cache_invD(1) [OF data_invD(1) [OF st0(1)]]
    let ?old = "BClist st0 ! i"
    let ?bc = "?old\<lparr>dirty := True, buffer := ?p (filesys_disk st1 s), sector := s, alloc := True, access := True\<rparr>"
    let ?st' = "st1\<lparr>BClist := (BClist st0)[i := ?bc]\<rparr>"
    have w: "cache_disk_write st s src ofs len = Some ?st'"
      using None wc io sh(1,2) len0 by (simp add: cache_disk_write_def write_locate_def Let_def)
    have bl: "length (?p (filesys_disk st1 s)) = DISK_SECTOR_SIZE"
      using fits fl(3) by (simp add: length_patch)
    have d: "data_inv ?st'"
      by (rule install(1) [OF st0(1) sh(1) s absent_others [OF st0(2)], where bc' = ?bc])
         (simp_all add: sh(3) fl(1) [symmetric] bl)
    have "view ?st' = (view st0)(s := buffer ?bc)"
      by (rule install(2) [OF st0(1) sh(1) s absent_others [OF st0(2)], where bc' = ?bc])
         (simp_all add: sh(3) fl(1) [symmetric] bl)
    with fl(2) st0(3) have "view ?st' = (view st)(s := ?p (view st s))" by simp
    with w d show ?thesis by blast
  qed
qed

lemma nth_patch:
  assumes "ofs + length bytes \<le> length buf" "p < length buf"
  shows "patch buf ofs bytes ! p = (if ofs \<le> p \<and> p < ofs + length bytes then bytes ! (p - ofs) else buf ! p)"
proof -
  consider "p < ofs" | "ofs \<le> p" "p < ofs + length bytes" | "ofs + length bytes \<le> p" by linarith
  then show ?thesis
  proof cases
    case 1
    with assms show ?thesis by (simp add: patch_def nth_append)
  next
    case 2
    with assms show ?thesis by (auto simp: patch_def nth_append min_def)
  next
    case 3
    with assms show ?thesis by (auto simp: patch_def nth_append min_def)
  qed
qed

lemma view_length:
  assumes inv: "data_inv st"
  shows "length (view st s) = DISK_SECTOR_SIZE"
proof (cases "\<exists>i<64. alloc (BClist st ! i) \<and> sector (BClist st ! i) = s")
  case True
  then obtain i where i: "i < 64" "alloc (BClist st ! i)" "sector (BClist st ! i) = s" by blast
  from view_cached [OF data_invD(1) [OF inv] i(1,2)] i(3) data_invD(4) [OF inv i(1,2)]
  show ?thesis by simp
next
  case False
  then have "view st s = filesys_disk st s"
    using view_uncached [OF cache_invD(1) [OF data_invD(1) [OF inv]], of s] by blast
  with data_invD(5) [OF inv, of s] show ?thesis by simp
qed

lemma apply_op_view:
  assumes inv: "data_inv st" and ok: "op_in_contract x" "op_on_device x"
  shows "\<exists>st'. apply_op st x = Some st' \<and> data_inv st'
           \<and> (\<forall>s p. p < DISK_SECTOR_SIZE \<longrightarrow>
                 view st' s ! p = (case written_by x s p of Some v \<Rightarrow> v | None \<Rightarrow> view st s ! p))"
proof (cases x)
  case (ReadThrough sec_no ofs len)
  with ok cache_disk_read_view [OF inv, of sec_no ofs len] show ?thesis by auto
next
  case (WriteThrough sec_no src ofs len)
  with ok have c: "in_slot ofs len" "nat len \<le> length src" "sec_no \<noteq> NO_SECTOR" by simp_all
  from cache_disk_write_view [OF inv c(3) c(1) c(2)]
  obtain st' where st': "cache_disk_write st sec_no src ofs len = Some st'" "data_inv st'"
    "view st' = (view st)(sec_no := patch (view st sec_no) (nat ofs) (take (nat len) src))" by blast
  have lt: "length (take (nat len) src) = nat len" using c(2) by simp
  have "view st' s ! p = (case written_by x s p of Some v \<Rightarrow> v | None \<Rightarrow> view st s ! p)"
    if p: "p < DISK_SECTOR_SIZE" for s p
  proof (cases "s = sec_no")
    case True
    have "patch (view st sec_no) (nat ofs) (take (nat len) src) ! p =
        (if nat ofs \<le> p \<and> p < nat ofs + length (take (nat len) src)
         then take (nat len) src ! (p - nat ofs) else view st sec_no ! p)"
    proof (rule nth_patch)
      from in_slot_fits [OF c(1,2)] view_length [OF inv, of sec_no]
      show "nat ofs + length (take (nat len) src) \<le> length (view st sec_no)" by simp
      from p view_length [OF inv, of sec_no] show "p < length (view st sec_no)" by simp
    qed
    with True st'(3) WriteThrough lt show ?thesis by auto
  next
    case False
    with st'(3) WriteThrough show ?thesis by auto
  qed
  with st'(1,2) WriteThrough show ?thesis by auto
qed

lemma run_ops_view:
  "data_inv st \<Longrightarrow> list_all op_in_contract xs \<Longrightarrow> list_all op_on_device xs \<Longrightarrow>
     \<exists>st'. run_ops st xs = Some st' \<and> data_inv st'
        \<and> (\<forall>s p. p < DISK_SECTOR_SIZE \<longrightarrow>
              view st' s ! p = (case last_written xs s p of Some v \<Rightarrow> v | None \<Rightarrow> view st s ! p))"
proof (induction xs arbitrary: st)
  case Nil
  then show ?case by simp
next
  case (Cons x xs)
  from Cons.prems have x: "op_in_contract x" "op_on_device x"
    and xs: "list_all op_in_contract xs" "list_all op_on_device xs" by simp_all
  from apply_op_view [OF Cons.prems(1) x]
  obtain st1 where st1: "apply_op st x = Some st1" "data_inv st1"
    "\<And>s p. p < DISK_SECTOR_SIZE \<Longrightarrow>
        view st1 s ! p = (case written_by x s p of Some v \<Rightarrow> v | None \<Rightarrow> view st s ! p)" by blast
  from Cons.IH [OF st1(2) xs]
  obtain st' where st': "run_ops st1 xs = Some st'" "data_inv st'"
    "\<And>s p. p < DISK_SECTOR_SIZE \<Longrightarrow>
        view st' s ! p = (case last_written xs s p of Some v \<Rightarrow> v | None \<Rightarrow> view st1 s ! p)" by blast
  have "view st' s ! p = (case last_written (x # xs) s p of Some v \<Rightarrow> v | None \<Rightarrow> view st s ! p)"
    if "p < DISK_SECTOR_SIZE" for s p
    using st'(3) [OF that, of s] st1(3) [OF that, of s] by (simp split: option.splits)
  with st1(1) st'(1,2) show ?case by simp
qed

text \<open>
  Claim C1. Start from \<open>inode_init\<close> on a device whose sectors hold 512 bytes each, and
  run any sequence of \<open>_disk_read\<close> and \<open>_disk_write\<close> calls, each on a sector of the
  device and with offset plus length within the sector (any number of distinct sectors,
  so any number of evictions). The calls all return, and a following \<open>_disk_read\<close> of any
  sector of the device returns, at each byte position, the byte most recently written to
  that position of that sector, or the device's original byte when none was written.
\<close>

theorem no_lost_writes:
  assumes "\<forall>s. length (d s) = DISK_SECTOR_SIZE"
    and "list_all op_in_contract xs" and "list_all op_on_device xs"
    and "sec_no \<noteq> NO_SECTOR" and "in_slot ofs len"
  shows "\<exists>st bytes st'.
            run_ops (inode_init garbage d) xs = Some st
          \<and> cache_disk_read st sec_no ofs len = Some (bytes, st')
          \<and> length bytes = nat len
          \<and> (\<forall>k<nat len. bytes ! k =
                (case last_written xs sec_no (nat ofs + k) of
                   Some v \<Rightarrow> v
                 | None \<Rightarrow> d sec_no ! (nat ofs + k)))"
proof -
  from assms(1) have "data_inv (inode_init garbage d)" by (simp add: data_inv_init)
  from run_ops_view [OF this assms(2,3), unfolded view_init]
  obtain st where st0: "run_ops (inode_init garbage d) xs = Some st \<and> data_inv st
      \<and> (\<forall>s p. p < DISK_SECTOR_SIZE \<longrightarrow> view st s ! p =
            (case last_written xs s p of Some v \<Rightarrow> v | None \<Rightarrow> d s ! p))"
    by blast
  then have st: "run_ops (inode_init garbage d) xs = Some st" "data_inv st"
    "\<And>s p. p < DISK_SECTOR_SIZE \<Longrightarrow>
        view st s ! p = (case last_written xs s p of Some v \<Rightarrow> v | None \<Rightarrow> d s ! p)"
    by simp_all
  from cache_disk_read_view [OF st(2) assms(4,5)]
  obtain st' where r: "cache_disk_read st sec_no ofs len =
      Some (take (nat len) (drop (nat ofs) (view st sec_no)), st')" by blast
  let ?bytes = "take (nat len) (drop (nat ofs) (view st sec_no))"
  from assms(5) have fit: "nat ofs + nat len \<le> DISK_SECTOR_SIZE"
    using in_slot_fits [of ofs len "replicate (nat len) 0"] by simp
  have l: "length ?bytes = nat len" using fit view_length [OF st(2), of sec_no] by simp
  have "?bytes ! k = (case last_written xs sec_no (nat ofs + k) of
                   Some v \<Rightarrow> v | None \<Rightarrow> d sec_no ! (nat ofs + k))" if "k < nat len" for k
  proof -
    from that fit have p: "nat ofs + k < DISK_SECTOR_SIZE" by simp
    from that fit view_length [OF st(2), of sec_no]
    have "?bytes ! k = view st sec_no ! (nat ofs + k)" by simp
    with st(3) [OF p, of sec_no] show ?thesis by simp
  qed
  with st(1) r l show ?thesis by blast
qed

theorem no_lost_writes_witness:
  "\<exists>st bytes st'.
      run_ops (inode_init (\<lambda>i. []) (\<lambda>s. replicate 512 0)) seventy_writes = Some st
    \<and> cache_disk_read st 2 0 2 = Some (bytes, st')
    \<and> bytes = [3, 0]"
proof -
  let ?d = "\<lambda>s::disk_sector_t. replicate 512 (0::byte)"
  have a: "\<forall>s. length (?d s) = DISK_SECTOR_SIZE" by (simp add: DISK_SECTOR_SIZE_def)
  have b: "list_all op_in_contract seventy_writes"
    by (simp add: seventy_writes_def list_all_iff in_slot_def DISK_SECTOR_SIZE_def)
  have c: "list_all op_on_device seventy_writes" by code_simp
  have e: "(2::disk_sector_t) \<noteq> NO_SECTOR" by (simp add: NO_SECTOR_def)
  have f: "in_slot 0 2" by (simp add: in_slot_def DISK_SECTOR_SIZE_def)
  have g: "last_written seventy_writes 2 0 = Some 3" by code_simp
  have h: "last_written seventy_writes 2 1 = None" by code_simp
  from no_lost_writes [OF a b c e f, of "\<lambda>i. []"]
  obtain st bytes st' where r: "run_ops (inode_init (\<lambda>i. []) ?d) seventy_writes = Some st"
    "cache_disk_read st 2 0 2 = Some (bytes, st')" "length bytes = 2"
    "\<And>k. k < 2 \<Longrightarrow> bytes ! k =
        (case last_written seventy_writes 2 (nat 0 + k) of Some v \<Rightarrow> v | None \<Rightarrow> ?d 2 ! (nat 0 + k))"
    by auto
  from r(4) [of 0] r(4) [of 1] g h
  have "bytes ! 0 = 3" "bytes ! 1 = 0" by simp_all
  with r(3) have "bytes = [3, 0]"
    by (auto simp: list_eq_iff_nth_eq less_Suc_eq eval_nat_numeral)
  with r(1,2) show ?thesis by blast
qed

subsection \<open>The claim loop gives a second chance\<close>

lemma hit_scan_sectors:
  "map sector xs = map sector ys \<Longrightarrow> hit_scan xs s k = hit_scan ys s k"
proof (induction xs arbitrary: ys k)
  case Nil
  then show ?case by simp
next
  case (Cons x xs)
  then obtain y ys' where "ys = y # ys'" by (cases ys) auto
  with Cons show ?case by auto
qed

lemma BC_overwritten:
  "x\<lparr>buffer := b, sector := s, alloc := a, access := r, dirty := w\<rparr>
     = \<lparr>buffer = b, sector = s, alloc = a, access = r, dirty = w\<rparr>"
  "x\<lparr>dirty := w, buffer := b, sector := s, alloc := a, access := r\<rparr>
     = \<lparr>buffer = b, sector = s, alloc = a, access = r, dirty = w\<rparr>"
  by (cases x, simp)+

lemma hit_scan_skip:
  "hit_scan (BClist (skip_slot st)) s 0 = hit_scan (BClist st) s 0"
proof (rule hit_scan_sectors)
  show "map sector (BClist (skip_slot st)) = map sector (BClist st)"
    by (cases "next_BC_to_evict st < length (BClist st)")
       (simp_all add: skip_slot_def map_update list_update_same_conv list_update_beyond)
qed

text \<open>
  Claim C4. On a miss (no slot holds the requested sector), with the copy inside the
  sector, \<open>_disk_read\<close> and \<open>_disk_write\<close> look at the slot under the cursor and advance the
  cursor by one modulo 64. An unallocated slot is claimed at once. An allocated slot with
  the access flag set only loses the flag and keeps its sector and contents: the call
  goes on as from the state with that slot skipped. An allocated slot with the access
  flag clear is the victim: when it is dirty its buffer is first stored on the device at
  its old sector, then the requested sector is loaded from the device into it. A slot
  claimed by \<open>_disk_read\<close> ends as allocated, not accessed, not dirty; one claimed by
  \<open>_disk_write\<close> ends as allocated, accessed, dirty, with the written bytes patched in.
\<close>

theorem miss_claims_by_second_chance:
  assumes "pool_ok st" and "hit_scan (BClist st) sec_no 0 = None"
    and "in_slot ofs len" and "nat len \<le> length src"
    and "c = next_BC_to_evict st" and "bc = BClist st ! c"
    and "d' = (if dirty bc then disk_write (filesys_disk st) (sector bc) (buffer bc) else filesys_disk st)"
  shows "(\<not> alloc bc \<longrightarrow>
            cache_disk_read st sec_no ofs len =
              Some (take (nat len) (drop (nat ofs) (filesys_disk st sec_no)),
                    st\<lparr>next_BC_to_evict := (c + 1) mod 64,
                       BClist := (BClist st)[c := \<lparr>buffer = filesys_disk st sec_no, sector = sec_no, alloc = True, access = False, dirty = False\<rparr>]\<rparr>)
          \<and> cache_disk_write st sec_no src ofs len =
              Some (st\<lparr>next_BC_to_evict := (c + 1) mod 64,
                       BClist := (BClist st)[c := \<lparr>buffer = patch (filesys_disk st sec_no) (nat ofs) (take (nat len) src), sector = sec_no,
                              alloc = True, access = True, dirty = True\<rparr>]\<rparr>))
       \<and> (alloc bc \<and> access bc \<longrightarrow>
            cache_disk_read st sec_no ofs len = cache_disk_read (skip_slot st) sec_no ofs len
          \<and> cache_disk_write st sec_no src ofs len = cache_disk_write (skip_slot st) sec_no src ofs len
          \<and> next_BC_to_evict (skip_slot st) = (c + 1) mod 64
          \<and> BClist (skip_slot st) = (BClist st)[c := bc\<lparr>access := False\<rparr>]
          \<and> filesys_disk (skip_slot st) = filesys_disk st)
       \<and> (alloc bc \<and> \<not> access bc \<longrightarrow>
            cache_disk_read st sec_no ofs len =
              Some (take (nat len) (drop (nat ofs) (d' sec_no)),
                    st\<lparr>next_BC_to_evict := (c + 1) mod 64, filesys_disk := d',
                       BClist := (BClist st)[c := \<lparr>buffer = d' sec_no, sector = sec_no, alloc = True, access = False, dirty = False\<rparr>]\<rparr>)
          \<and> cache_disk_write st sec_no src ofs len =
              Some (st\<lparr>next_BC_to_evict := (c + 1) mod 64, filesys_disk := d',
                       BClist := (BClist st)[c := \<lparr>buffer = patch (d' sec_no) (nat ofs) (take (nat len) src), sector = sec_no,
                              alloc = True, access = True, dirty = True\<rparr>]\<rparr>))"
proof -
  from assms(1,5) have c: "c < length (BClist st)" by (simp add: pool_ok_def)
  have unalloc: "cache_disk_read st sec_no ofs len =
              Some (take (nat len) (drop (nat ofs) (filesys_disk st sec_no)),
                    st\<lparr>next_BC_to_evict := (c + 1) mod 64,
                       BClist := (BClist st)[c := \<lparr>buffer = filesys_disk st sec_no, sector = sec_no, alloc = True, access = False, dirty = False\<rparr>]\<rparr>)
          \<and> cache_disk_write st sec_no src ofs len =
              Some (st\<lparr>next_BC_to_evict := (c + 1) mod 64,
                       BClist := (BClist st)[c := \<lparr>buffer = patch (filesys_disk st sec_no) (nat ofs) (take (nat len) src), sector = sec_no,
                              alloc = True, access = True, dirty = True\<rparr>]\<rparr>)"
    if "\<not> alloc bc"
  proof
    show "cache_disk_read st sec_no ofs len =
              Some (take (nat len) (drop (nat ofs) (filesys_disk st sec_no)),
                    st\<lparr>next_BC_to_evict := (c + 1) mod 64,
                       BClist := (BClist st)[c := \<lparr>buffer = filesys_disk st sec_no, sector = sec_no, alloc = True, access = False, dirty = False\<rparr>]\<rparr>)"
      using that assms c
      by (simp add: cache_disk_read_def read_locate_def read_claim.simps [of st] read_claim_step_def
            Let_def disk_read_def BC_overwritten)
    show "cache_disk_write st sec_no src ofs len =
              Some (st\<lparr>next_BC_to_evict := (c + 1) mod 64,
                       BClist := (BClist st)[c := \<lparr>buffer = patch (filesys_disk st sec_no) (nat ofs) (take (nat len) src), sector = sec_no,
                              alloc = True, access = True, dirty = True\<rparr>]\<rparr>)"
      using that assms c
      by (simp add: cache_disk_write_def write_locate_def write_claim.simps [of st] write_claim_step_def
            Let_def disk_read_def BC_overwritten)
  qed
  have skipped: "cache_disk_read st sec_no ofs len = cache_disk_read (skip_slot st) sec_no ofs len
          \<and> cache_disk_write st sec_no src ofs len = cache_disk_write (skip_slot st) sec_no src ofs len
          \<and> next_BC_to_evict (skip_slot st) = (c + 1) mod 64
          \<and> BClist (skip_slot st) = (BClist st)[c := bc\<lparr>access := False\<rparr>]
          \<and> filesys_disk (skip_slot st) = filesys_disk st"
    if "alloc bc \<and> access bc"
  proof -
    from that assms(5,6) have b: "busy st (next_BC_to_evict st)" by (simp add: busy_def)
    have r: "read_claim st sec_no = read_claim (skip_slot st) sec_no"
      by (subst read_claim.simps) (simp add: read_step_skips [OF assms(1) b])
    have w: "write_claim st sec_no = write_claim (skip_slot st) sec_no"
      by (subst write_claim.simps) (simp add: write_step_skips [OF assms(1) b])
    from assms(2) have h: "hit_scan (BClist (skip_slot st)) sec_no 0 = None"
      by (simp add: hit_scan_skip)
    have "cache_disk_read st sec_no ofs len = cache_disk_read (skip_slot st) sec_no ofs len"
      using r h assms(2) by (simp add: cache_disk_read_def read_locate_def)
    moreover have "cache_disk_write st sec_no src ofs len = cache_disk_write (skip_slot st) sec_no src ofs len"
      using w h assms(2) by (simp add: cache_disk_write_def write_locate_def)
    ultimately show ?thesis using assms(5,6) by (simp add: skip_slot_def)
  qed
  have victim: "cache_disk_read st sec_no ofs len =
              Some (take (nat len) (drop (nat ofs) (d' sec_no)),
                    st\<lparr>next_BC_to_evict := (c + 1) mod 64, filesys_disk := d',
                       BClist := (BClist st)[c := \<lparr>buffer = d' sec_no, sector = sec_no, alloc = True, access = False, dirty = False\<rparr>]\<rparr>)
          \<and> cache_disk_write st sec_no src ofs len =
              Some (st\<lparr>next_BC_to_evict := (c + 1) mod 64, filesys_disk := d',
                       BClist := (BClist st)[c := \<lparr>buffer = patch (d' sec_no) (nat ofs) (take (nat len) src), sector = sec_no,
                              alloc = True, access = True, dirty = True\<rparr>]\<rparr>)"
    if "alloc bc \<and> \<not> access bc"
  proof
    show "cache_disk_read st sec_no ofs len =
              Some (take (nat len) (drop (nat ofs) (d' sec_no)),
                    st\<lparr>next_BC_to_evict := (c + 1) mod 64, filesys_disk := d',
                       BClist := (BClist st)[c := \<lparr>buffer = d' sec_no, sector = sec_no, alloc = True, access = False, dirty = False\<rparr>]\<rparr>)"
      using that assms c
      by (simp add: cache_disk_read_def read_locate_def read_claim.simps [of st] read_claim_step_def
            Let_def disk_read_def BC_overwritten)
    show "cache_disk_write st sec_no src ofs len =
              Some (st\<lparr>next_BC_to_evict := (c + 1) mod 64, filesys_disk := d',
                       BClist := (BClist st)[c := \<lparr>buffer = patch (d' sec_no) (nat ofs) (take (nat len) src), sector = sec_no,
                              alloc = True, access = True, dirty = True\<rparr>]\<rparr>)"
      using that assms c
      by (simp add: cache_disk_write_def write_locate_def write_claim.simps [of st] write_claim_step_def
            Let_def disk_read_def BC_overwritten)
  qed
  from unalloc skipped victim show ?thesis by blast
qed

theorem miss_claims_by_second_chance_witness:
  "map_option fst (cache_disk_read example_fresh 7 0 2) = Some [0, 0]
   \<and> cache_disk_read example_referenced 7 0 2 = cache_disk_read (skip_slot example_referenced) 7 0 2
   \<and> BClist (skip_slot example_referenced) ! 0
        = \<lparr>buffer = replicate 512 1, sector = 5, alloc = True, access = False, dirty = True\<rparr>
   \<and> (\<exists>st'. cache_disk_write example_victim 7 [9] 0 1 = Some st'
          \<and> filesys_disk st' 5 = replicate 512 1
          \<and> BClist st' ! 0 = \<lparr>buffer = 9 # replicate 511 0, sector = 7, alloc = True,
                                access = True, dirty = True\<rparr>
          \<and> next_BC_to_evict st' = 1)"
proof -
  have ok: "pool_ok example_fresh" "pool_ok example_referenced" "pool_ok example_victim"
    by (simp_all add: pool_ok_def example_fresh_def example_referenced_def example_victim_def inode_init_def)
  have miss: "hit_scan (BClist example_fresh) 7 0 = None"
    "hit_scan (BClist example_referenced) 7 0 = None"
    "hit_scan (BClist example_victim) 7 0 = None"
    by code_simp+
  have io: "in_slot 0 2" "in_slot 0 1" by (simp_all add: in_slot_def DISK_SECTOR_SIZE_def)
  have cur: "next_BC_to_evict example_fresh = 0" "next_BC_to_evict example_referenced = 0"
    "next_BC_to_evict example_victim = 0"
    by (simp_all add: example_fresh_def example_referenced_def example_victim_def inode_init_def)
  have s1: "BClist example_fresh ! 0 = \<lparr>buffer = [], sector = NO_SECTOR, alloc = False, access = False, dirty = False\<rparr>"
    by (simp add: example_fresh_def inode_init_def)
  have s2: "BClist example_referenced ! 0 = \<lparr>buffer = replicate 512 1, sector = 5, alloc = True, access = True, dirty = True\<rparr>"
    by (simp add: example_referenced_def example_fresh_def inode_init_def)
  have s3: "BClist example_victim ! 0 = \<lparr>buffer = replicate 512 1, sector = 5, alloc = True, access = False, dirty = True\<rparr>"
    by (simp add: example_victim_def example_fresh_def inode_init_def)
  have d: "filesys_disk example_fresh = (\<lambda>s. replicate 512 0)" "filesys_disk example_victim = (\<lambda>s. replicate 512 0)"
    by (simp_all add: example_victim_def example_fresh_def inode_init_def)
  have len: "length (BClist example_referenced) = 64" "length (BClist example_victim) = 64"
    by (simp_all add: example_referenced_def example_victim_def example_fresh_def inode_init_def)
  have two_zeros: "replicate 2 (0::byte) = [0, 0]"
    by (simp add: numeral_2_eq_2)
  have a: "map_option fst (cache_disk_read example_fresh 7 0 2) = Some [0, 0]"
    using miss_claims_by_second_chance [OF ok(1) miss(1) io(1) _ refl refl refl, of "[0, 0]"]
    by (simp add: cur s1 d two_zeros)
  have b: "cache_disk_read example_referenced 7 0 2 = cache_disk_read (skip_slot example_referenced) 7 0 2
      \<and> BClist (skip_slot example_referenced) ! 0
        = \<lparr>buffer = replicate 512 1, sector = 5, alloc = True, access = False, dirty = True\<rparr>"
    using miss_claims_by_second_chance [OF ok(2) miss(2) io(1) _ refl refl refl, of "[0, 0]"] len
    by (simp add: cur s2)
  have patched: "patch (replicate 512 0) 0 [9] = 9 # replicate 511 (0::byte)"
    by (simp add: patch_def)
  have c: "\<exists>st'. cache_disk_write example_victim 7 [9] 0 1 = Some st'
          \<and> filesys_disk st' 5 = replicate 512 1
          \<and> BClist st' ! 0 = \<lparr>buffer = 9 # replicate 511 0, sector = 7, alloc = True,
                                access = True, dirty = True\<rparr>
          \<and> next_BC_to_evict st' = 1"
    using miss_claims_by_second_chance [OF ok(3) miss(3) io(2) _ refl refl refl, of "[9]"] len
    by (simp add: cur s3 d disk_write_def patched)
  from a b c show ?thesis by blast
qed

section \<open>Properties of the inode layer\<close>

subsection \<open>Reading and writing an inode\<close>

lemma sized_pool_ok: "sized st \<Longrightarrow> pool_ok st"
  by (simp add: sized_def)

lemma sized_skip: "sized st \<Longrightarrow> sized (skip_slot st)"
  by (simp add: sized_def skip_slot_def pool_ok_def nth_list_update)

lemma sized_flushed:
  assumes "sized st" "i < 64"
    and "d' = (if alloc (BClist st ! i) \<and> dirty (BClist st ! i)
                 then (filesys_disk st)(sector (BClist st ! i) := buffer (BClist st ! i))
                 else filesys_disk st)"
  shows "length (d' s) = DISK_SECTOR_SIZE"
  using assms by (simp add: sized_def)

lemma sized_update:
  assumes "sized st" "i < 64" "BClist st' = (BClist st)[i := bc']" "length (buffer bc') = DISK_SECTOR_SIZE"
    "next_BC_to_evict st' < 64" "\<And>s. length (filesys_disk st' s) = DISK_SECTOR_SIZE"
  shows "sized st'"
  using assms by (simp add: sized_def pool_ok_def nth_list_update)

lemma read_step_claimed_sized:
  assumes step: "read_claim_step st s = Claimed i st'" and sz: "sized st"
  shows "sized st' \<and> i < 64"
proof -
  note sh = read_step_claimed_shape [OF step sized_pool_ok [OF sz]]
  note fl = sized_flushed [OF sz sh(1) sh(4)]
  have "sized st'"
    by (rule sized_update [OF sz sh(1) sh(2) _ sh(3) fl]) (simp add: fl)
  with sh(1) show ?thesis by simp
qed

lemma write_step_claimed_sized:
  assumes step: "write_claim_step st s = Claimed i st'" and sz: "sized st"
  shows "sized st' \<and> i < 64"
proof -
  note sh = write_step_claimed_shape [OF step sized_pool_ok [OF sz]]
  note fl = sized_flushed [OF sz sh(1) sh(4)]
  have "sized st'"
    by (rule sized_update [OF sz sh(1) sh(2) _ sh(3) fl]) (simp add: fl)
  with sh(1) show ?thesis by simp
qed

lemma read_claim_sized:
  "read_claim st s = Some (i, st') \<Longrightarrow> sized st \<Longrightarrow> sized st' \<and> i < 64"
proof (induction st s rule: read_claim.induct)
  case (1 st s)
  note ok = sized_pool_ok [OF "1.prems"(2)]
  from ok show ?case
  proof (cases rule: read_step_cases [where s = s])
    case skip
    with "1.prems"(1) have "read_claim (skip_slot st) s = Some (i, st')"
      by (subst (asm) read_claim.simps) simp
    from "1.IH" [OF skip(2) this sized_skip [OF "1.prems"(2)]] show ?thesis .
  next
    case (claim st'')
    with "1.prems"(1) have "i = next_BC_to_evict st" "st' = st''"
      by (subst (asm) read_claim.simps, simp)+
    with claim read_step_claimed_sized [OF _ "1.prems"(2)] show ?thesis by simp
  qed
qed

lemma write_claim_sized:
  "write_claim st s = Some (i, st') \<Longrightarrow> sized st \<Longrightarrow> sized st' \<and> i < 64"
proof (induction st s rule: write_claim.induct)
  case (1 st s)
  note ok = sized_pool_ok [OF "1.prems"(2)]
  from ok show ?case
  proof (cases rule: write_step_cases [where s = s])
    case skip
    with "1.prems"(1) have "write_claim (skip_slot st) s = Some (i, st')"
      by (subst (asm) write_claim.simps) simp
    from "1.IH" [OF skip(2) this sized_skip [OF "1.prems"(2)]] show ?thesis .
  next
    case (claim st'')
    with "1.prems"(1) have "i = next_BC_to_evict st" "st' = st''"
      by (subst (asm) write_claim.simps, simp)+
    with claim write_step_claimed_sized [OF _ "1.prems"(2)] show ?thesis by simp
  qed
qed

lemma read_locate_sized:
  assumes sz: "sized st"
  shows "\<exists>i st'. read_locate st s = Some (i, st') \<and> sized st' \<and> i < 64"
proof (cases "hit_scan (BClist st) s 0")
  case None
  from read_claim_total [OF sized_pool_ok [OF sz], of s]
  obtain i st' where r: "read_claim st s = Some (i, st')" by blast
  from read_claim_sized [OF r sz] r None show ?thesis by (simp add: read_locate_def)
next
  case (Some i)
  from sz have len: "length (BClist st) = 64" by (simp add: sized_def pool_ok_def)
  from hit_scan_first(1) [OF Some len] have i: "i < 64" .
  have "sized (st\<lparr>BClist := (BClist st)[i := (BClist st ! i)\<lparr>access := True\<rparr>]\<rparr>)"
    using sz i by (simp add: sized_def pool_ok_def nth_list_update)
  with Some i show ?thesis by (simp add: read_locate_def)
qed

lemma write_locate_sized:
  assumes sz: "sized st"
  shows "\<exists>i st'. write_locate st s = Some (i, st') \<and> sized st' \<and> i < 64"
proof (cases "hit_scan (BClist st) s 0")
  case None
  from write_claim_total [OF sized_pool_ok [OF sz], of s]
  obtain i st' where r: "write_claim st s = Some (i, st')" by blast
  from write_claim_sized [OF r sz] r None show ?thesis by (simp add: write_locate_def)
next
  case (Some i)
  from sz have len: "length (BClist st) = 64" by (simp add: sized_def pool_ok_def)
  from hit_scan_first(1) [OF Some len] have i: "i < 64" .
  have "sized (st\<lparr>BClist := (BClist st)[i := (BClist st ! i)\<lparr>dirty := True\<rparr>]\<rparr>)"
    using sz i by (simp add: sized_def pool_ok_def nth_list_update)
  with Some i show ?thesis by (simp add: write_locate_def)
qed

lemma in_slot_nat:
  assumes "in_slot ofs len"
  shows "nat ofs + nat len \<le> DISK_SECTOR_SIZE"
proof -
  from assms have "nat ofs + nat len = nat (ofs + len)"
    by (simp add: in_slot_def nat_add_distrib)
  moreover from assms have "nat (ofs + len) \<le> DISK_SECTOR_SIZE"
    by (simp add: in_slot_def nat_le_iff)
  ultimately show ?thesis by simp
qed

lemma cache_disk_read_sized:
  assumes sz: "sized st" and io: "in_slot ofs len"
  shows "\<exists>bytes st'. cache_disk_read st s ofs len = Some (bytes, st') \<and> length bytes = nat len \<and> sized st'"
proof -
  from read_locate_sized [OF sz, of s]
  obtain i st' where l: "read_locate st s = Some (i, st')" "sized st'" "i < 64" by blast
  from l(2,3) have "length (buffer (BClist st' ! i)) = DISK_SECTOR_SIZE" by (simp add: sized_def)
  with in_slot_nat [OF io] have "length (take (nat len) (drop (nat ofs) (buffer (BClist st' ! i)))) = nat len"
    by simp
  with l io show ?thesis by (simp add: cache_disk_read_def)
qed

lemma cache_disk_write_sized:
  assumes sz: "sized st" and io: "in_slot ofs len" "nat len \<le> length src"
  shows "\<exists>st'. cache_disk_write st s src ofs len = Some st' \<and> sized st'"
proof -
  from write_locate_sized [OF sz, of s]
  obtain i st1 where l: "write_locate st s = Some (i, st1)" "sized st1" "i < 64" by blast
  let ?bc = "(BClist st1 ! i)\<lparr>buffer := patch (buffer (BClist st1 ! i)) (nat ofs) (take (nat len) src),
                                     sector := s, alloc := True, access := True\<rparr>"
  let ?st' = "st1\<lparr>BClist := (BClist st1)[i := ?bc]\<rparr>"
  from l(2,3) have bl: "length (buffer (BClist st1 ! i)) = DISK_SECTOR_SIZE" by (simp add: sized_def)
  have pl: "length (patch (buffer (BClist st1 ! i)) (nat ofs) (take (nat len) src)) = DISK_SECTOR_SIZE"
    using in_slot_fits [OF io] bl by (simp add: length_patch)
  have "sized ?st'"
    by (rule sized_update [OF l(2,3), where bc' = ?bc]) (use l(2) pl in \<open>simp_all add: sized_def pool_ok_def\<close>)
  moreover have "cache_disk_write st s src ofs len = Some ?st'"
    using l(1) io by (simp add: cache_disk_write_def Let_def)
  ultimately show ?thesis by blast
qed

lemma sized_init:
  assumes "\<And>i. length (garbage i) = DISK_SECTOR_SIZE" "\<And>s. length (d s) = DISK_SECTOR_SIZE"
  shows "sized (inode_init garbage d)"
  using assms by (simp add: sized_def pool_ok_def inode_init_def)

lemma sector_ofs_nonneg:
  assumes "0 \<le> offset"
  shows "sector_ofs offset = offset mod 512" "0 \<le> sector_ofs offset" "sector_ofs offset < 512"
proof -
  show a: "sector_ofs offset = offset mod 512"
    using assms by (simp add: sector_ofs_def DISK_SECTOR_SIZE_def signed_modulo_int_def sgn_if)
  show "0 \<le> sector_ofs offset" "sector_ofs offset < 512" unfolding a by simp_all
qed

text \<open>Calls into the cache change neither the registry nor the inodes nor the trace.\<close>

lemma read_step_frame:
  "read_claim_step st s = Claimed i st' \<Longrightarrow> same_inodes st st'"
  "read_claim_step st s = Skipped st' \<Longrightarrow> same_inodes st st'"
  by (auto simp: read_claim_step_def same_inodes_def Let_def split: if_splits)

lemma write_step_frame:
  "write_claim_step st s = Claimed i st' \<Longrightarrow> same_inodes st st'"
  "write_claim_step st s = Skipped st' \<Longrightarrow> same_inodes st st'"
  by (auto simp: write_claim_step_def same_inodes_def Let_def split: if_splits)

lemma same_inodes_trans: "same_inodes a b \<Longrightarrow> same_inodes b c \<Longrightarrow> same_inodes a c"
  by (simp add: same_inodes_def)

lemma read_claim_frame:
  "read_claim st s = Some (i, st') \<Longrightarrow> same_inodes st st'"
proof (induction st s rule: read_claim.induct)
  case (1 st s)
  show ?case
  proof (cases "read_claim_step st s")
    case (Claimed j st1)
    with "1.prems" have "st' = st1" by (subst (asm) read_claim.simps) simp
    with read_step_frame(1) [OF Claimed] show ?thesis by simp
  next
    case (Skipped st1)
    with "1.prems" have "read_claim st1 s = Some (i, st')" by (subst (asm) read_claim.simps) simp
    from same_inodes_trans [OF read_step_frame(2) [OF Skipped] "1.IH" [OF Skipped this]]
    show ?thesis .
  next
    case Stuck
    with "1.prems" show ?thesis by (subst (asm) read_claim.simps) simp
  qed
qed

lemma write_claim_frame:
  "write_claim st s = Some (i, st') \<Longrightarrow> same_inodes st st'"
proof (induction st s rule: write_claim.induct)
  case (1 st s)
  show ?case
  proof (cases "write_claim_step st s")
    case (Claimed j st1)
    with "1.prems" have "st' = st1" by (subst (asm) write_claim.simps) simp
    with write_step_frame(1) [OF Claimed] show ?thesis by simp
  next
    case (Skipped st1)
    with "1.prems" have "write_claim st1 s = Some (i, st')" by (subst (asm) write_claim.simps) simp
    from same_inodes_trans [OF write_step_frame(2) [OF Skipped] "1.IH" [OF Skipped this]]
    show ?thesis .
  next
    case Stuck
    with "1.prems" show ?thesis by (subst (asm) write_claim.simps) simp
  qed
qed

lemma cache_disk_read_frame:
  assumes "cache_disk_read st s ofs len = Some (bytes, st')"
  shows "same_inodes st st'"
proof -
  from assms obtain i where l: "read_locate st s = Some (i, st')"
    by (auto simp: cache_disk_read_def split: option.splits if_splits)
  show ?thesis
  proof (cases "hit_scan (BClist st) s 0")
    case None
    with l read_claim_frame [of st s i st'] show ?thesis by (simp add: read_locate_def)
  next
    case (Some k)
    with l show ?thesis by (auto simp: read_locate_def same_inodes_def)
  qed
qed

lemma cache_disk_write_frame:
  assumes "cache_disk_write st s src ofs len = Some st'"
  shows "same_inodes st st'"
proof -
  from assms obtain i st1 where l: "write_locate st s = Some (i, st1)"
    and e: "same_inodes st1 st'"
    by (auto simp: cache_disk_write_def same_inodes_def Let_def split: option.splits if_splits)
  have "same_inodes st st1"
  proof (cases "hit_scan (BClist st) s 0")
    case None
    with l write_claim_frame [of st s i st1] show ?thesis by (simp add: write_locate_def)
  next
    case (Some k)
    with l show ?thesis by (auto simp: write_locate_def same_inodes_def)
  qed
  from same_inodes_trans [OF this e] show ?thesis .
qed

text \<open>Inside the file, no 32-bit operation of the two loops wraps around.\<close>

lemma wrap32_id: "int32 x \<Longrightarrow> wrap32 x = x"
  by (simp add: wrap32_def int32_def signed_take_bit_int_eq_self)

lemma int32I: "- 2147483648 \<le> x \<Longrightarrow> x < 2147483648 \<Longrightarrow> int32 x"
  by (simp add: int32_def)

lemma chunk_size_eq:
  assumes "int32 (inode_length ino - offset)"
  shows "chunk_size ino sz offset = min sz (min (inode_length ino - offset) (512 - sector_ofs offset))"
  by (simp add: chunk_size_def wrap32_id [OF assms] Let_def DISK_SECTOR_SIZE_def min_def)

lemma chunk_size_le: "chunk_size ino sz offset \<le> sz"
  by (simp add: chunk_size_def Let_def)

lemma chunk_in_slot:
  assumes "0 \<le> offset" "0 < chunk_size ino sz offset"
  shows "in_slot (sector_ofs offset) (chunk_size ino sz offset)"
proof -
  have "chunk_size ino sz offset \<le> 512 - sector_ofs offset"
    by (simp add: chunk_size_def Let_def DISK_SECTOR_SIZE_def)
  with assms sector_ofs_nonneg(2,3) [OF assms(1)] show ?thesis
    by (simp add: in_slot_def DISK_SECTOR_SIZE_def)
qed

lemma byte_to_sector_in_file:
  assumes "0 \<le> pos" "pos < inode_length ino"
  shows "byte_to_sector ino pos = start (data ino) + word_of_int (pos div 512)"
  using assms
  by (simp add: byte_to_sector_def inode_length_def DISK_SECTOR_SIZE_def signed_divide_int_def sgn_if)

lemma chunk_positions:
  assumes "0 \<le> offset" "0 \<le> k" "offset mod 512 + k < 512" "offset + k < inode_length ino"
  shows "byte_to_sector ino (offset + k) = byte_to_sector ino offset"
    and "sector_ofs (offset + k) = sector_ofs offset + k"
proof -
  have e: "offset + k = 512 * (offset div 512) + (offset mod 512 + k)" by simp
  have r: "0 \<le> offset mod 512 + k" using assms(2) by simp
  have d: "(offset + k) div 512 = offset div 512"
    by (rule int_div_pos_eq [OF e r assms(3)])
  have m: "(offset + k) mod 512 = offset mod 512 + k"
    by (rule int_mod_pos_eq [OF e r assms(3)])
  from assms have "0 \<le> offset + k" "offset < inode_length ino" by simp_all
  with assms(1,4) d show "byte_to_sector ino (offset + k) = byte_to_sector ino offset"
    by (simp add: byte_to_sector_in_file)
  from assms(1,2) have "0 \<le> offset + k" by simp
  from sector_ofs_nonneg(1) [OF this] sector_ofs_nonneg(1) [OF assms(1)] m
  show "sector_ofs (offset + k) = sector_ofs offset + k" by simp
qed

lemma position_inj:
  assumes a: "0 \<le> a" "a < inode_length ino" and b: "0 \<le> b" "b < inode_length ino"
    and l: "inode_length ino < 2 ^ 31"
    and s: "byte_to_sector ino a = byte_to_sector ino b"
    and o: "nat (sector_ofs a) = nat (sector_ofs b)"
  shows "a = b"
proof -
  from s have "(word_of_int (a div 512) :: 32 word) = word_of_int (b div 512)"
    by (simp add: byte_to_sector_in_file [OF a] byte_to_sector_in_file [OF b])
  then have t: "take_bit 32 (a div 512) = take_bit 32 (b div 512)"
    by (simp add: word_of_int_eq_iff)
  have ba: "0 \<le> a div 512" "a div 512 < 2 ^ 32"
  proof -
    show "0 \<le> a div 512" using a(1) by (simp add: pos_imp_zdiv_nonneg_iff)
    from a(2) l have "a \<le> 2147483648" by simp
    from zdiv_mono1 [OF this, of 512] show "a div 512 < 2 ^ 32" by simp
  qed
  have bb: "0 \<le> b div 512" "b div 512 < 2 ^ 32"
  proof -
    show "0 \<le> b div 512" using b(1) by (simp add: pos_imp_zdiv_nonneg_iff)
    from b(2) l have "b \<le> 2147483648" by simp
    from zdiv_mono1 [OF this, of 512] show "b div 512 < 2 ^ 32" by simp
  qed
  from t have d: "a div 512 = b div 512"
    by (simp add: take_bit_int_eq_self [OF ba] take_bit_int_eq_self [OF bb])
  from o sector_ofs_nonneg(1,2) [OF a(1)] sector_ofs_nonneg(1,2) [OF b(1)]
  have m: "a mod 512 = b mod 512" by simp
  have "a = 512 * (a div 512) + a mod 512" by simp
  also have "\<dots> = 512 * (b div 512) + b mod 512" using d m by simp
  also have "\<dots> = b" by simp
  finally show ?thesis .
qed

lemma count_stop:
  assumes "0 \<le> offset" "0 < sz" "int32 (inode_length ino - offset)" "chunk_size ino sz offset \<le> 0"
  shows "min sz (max 0 (inode_length ino - offset)) = 0"
  using assms(2,4) sector_ofs_nonneg(3) [OF assms(1)]
  by (simp add: chunk_size_eq [OF assms(3)] min_def max_def split: if_splits)

lemma count_step:
  assumes "int32 (inode_length ino - offset)" "0 < chunk_size ino sz offset"
  shows "chunk_size ino sz offset
           + min (sz - chunk_size ino sz offset) (max 0 (inode_length ino - (offset + chunk_size ino sz offset)))
         = min sz (max 0 (inode_length ino - offset))"
  using assms(2) by (simp add: chunk_size_eq [OF assms(1)] min_def max_def split: if_splits)

text \<open>What one iteration of the loops knows when it transfers a chunk.\<close>

lemma chunk_facts:
  assumes o: "0 \<le> offset" and l: "inode_length ino < 2 ^ 31"
    and u: "- (2 ^ 31) \<le> inode_length ino - offset"
    and sz: "sz < 2 ^ 31" and n: "0 \<le> n" "n + sz < 2 ^ 31"
    and c: "0 < chunk_size ino sz offset"
  shows "int32 (inode_length ino - offset)"
    and "chunk_size ino sz offset \<le> inode_length ino - offset"
    and "chunk_size ino sz offset \<le> 512 - offset mod 512"
    and "wrap32 (sz - chunk_size ino sz offset) = sz - chunk_size ino sz offset"
    and "wrap32 (offset + chunk_size ino sz offset) = offset + chunk_size ino sz offset"
    and "wrap32 (n + chunk_size ino sz offset) = n + chunk_size ino sz offset"
    and "offset < inode_length ino"
proof -
  from l u sz n have l': "inode_length ino < 2147483648" and u': "- 2147483648 \<le> inode_length ino - offset"
    and sz': "sz < 2147483648" and n': "n + sz < 2147483648" by simp_all
  show r: "int32 (inode_length ino - offset)" by (rule int32I) (use o l' u' in linarith)+
  note e = chunk_size_eq [OF r, of sz]
  show a: "chunk_size ino sz offset \<le> inode_length ino - offset" unfolding e by simp
  show "chunk_size ino sz offset \<le> 512 - offset mod 512"
    unfolding e sector_ofs_nonneg(1) [OF o] by simp
  have le: "chunk_size ino sz offset \<le> sz" by (rule chunk_size_le)
  show "wrap32 (sz - chunk_size ino sz offset) = sz - chunk_size ino sz offset"
    by (rule wrap32_id, rule int32I) (use c le sz' in linarith)+
  show "wrap32 (offset + chunk_size ino sz offset) = offset + chunk_size ino sz offset"
    by (rule wrap32_id, rule int32I) (use c a o l' in linarith)+
  show "wrap32 (n + chunk_size ino sz offset) = n + chunk_size ino sz offset"
    by (rule wrap32_id, rule int32I) (use c le n(1) n' in linarith)+
  from c a show "offset < inode_length ino" by simp
qed


lemma upt_map_split:
  "map f [0..<a + b] = map f [0..<a] @ map (\<lambda>k. f (a + k)) [0..<b]"
  by (induction b) simp_all

lemma chunk_read:
  assumes inv: "data_inv st" and o: "0 \<le> offset" and c: "0 \<le> c" "offset mod 512 + c \<le> 512"
    "offset + c \<le> inode_length ino"
  shows "take (nat c) (drop (nat (sector_ofs offset)) (view st (byte_to_sector ino offset)))
           = map (\<lambda>k. file_byte (view st) ino (offset + int k)) [0..<nat c]"
proof (rule nth_equalityI)
  note so = sector_ofs_nonneg [OF o]
  have len: "length (view st (byte_to_sector ino offset)) = 512"
    using view_length [OF inv] by (simp add: DISK_SECTOR_SIZE_def)
  have fit: "nat (sector_ofs offset) + nat c \<le> 512"
    using c(1,2) so by simp
  show l: "length (take (nat c) (drop (nat (sector_ofs offset)) (view st (byte_to_sector ino offset))))
        = length (map (\<lambda>k. file_byte (view st) ino (offset + int k)) [0..<nat c])"
    using len fit by simp
  fix i assume "i < length (take (nat c) (drop (nat (sector_ofs offset)) (view st (byte_to_sector ino offset))))"
  with l have i: "i < nat c" by simp
  then have k: "0 \<le> int i" "offset mod 512 + int i < 512" "offset + int i < inode_length ino"
    using c by simp_all
  note cp = chunk_positions [OF o k]
  have "nat (sector_ofs offset + int i) = nat (sector_ofs offset) + i"
    using so(2) by (simp add: nat_add_distrib)
  with i len fit
  show "take (nat c) (drop (nat (sector_ofs offset)) (view st (byte_to_sector ino offset))) ! i
      = map (\<lambda>k. file_byte (view st) ino (offset + int k)) [0..<nat c] ! i"
    by (simp add: file_byte_def cp)
qed


lemma read_loop_content:
  "data_inv st \<Longrightarrow> file_on_device ino \<Longrightarrow> 0 \<le> offset \<Longrightarrow> inode_length ino < 2 ^ 31 \<Longrightarrow>
   - (2 ^ 31) \<le> inode_length ino - offset \<Longrightarrow> 0 \<le> sz \<Longrightarrow> 0 \<le> n \<Longrightarrow> n + sz < 2 ^ 31 \<Longrightarrow>
     \<exists>st'. read_loop st ino sz offset n buf
              = Some (n + min sz (max 0 (inode_length ino - offset)),
                      buf @ map (\<lambda>k. file_byte (view st) ino (offset + int k))
                              [0..<nat (min sz (max 0 (inode_length ino - offset)))],
                      st')
        \<and> data_inv st' \<and> view st' = view st \<and> same_inodes st st'"
proof (induction st ino sz offset n buf rule: read_loop.induct)
  case (1 st ino sz offset n buf)
  let ?c = "chunk_size ino sz offset"
  let ?N = "min sz (max 0 (inode_length ino - offset))"
  have r32: "int32 (inode_length ino - offset)"
    using "1.prems"(3,4,5) by (simp add: int32_def)
  have refl: "same_inodes st st" by (simp add: same_inodes_def)
  show ?case
  proof (cases "0 < sz")
    case False
    with "1.prems" refl show ?thesis by (subst read_loop.simps) simp
  next
    case True
    note pos = this
    show ?thesis
    proof (cases "?c \<le> 0")
      case True
      with pos count_stop [OF "1.prems"(3) pos r32 True] "1.prems"(1) refl show ?thesis
        by (subst read_loop.simps) simp
    next
      case False
      then have c: "0 < ?c" by simp
      from "1.prems"(7,8) pos have szb: "sz < 2 ^ 31" by simp
      note cf = chunk_facts [OF "1.prems"(3,4,5) szb "1.prems"(7,8) c]
      have le: "?c \<le> sz" by (rule chunk_size_le)
      from "1.prems"(2) "1.prems"(3) cf(7) have dev: "byte_to_sector ino offset \<noteq> NO_SECTOR"
        by (simp add: file_on_device_def)
      from cache_disk_read_view [OF "1.prems"(1) dev chunk_in_slot [OF "1.prems"(3) c]]
      obtain st1 where r: "cache_disk_read st (byte_to_sector ino offset) (sector_ofs offset) ?c
            = Some (take (nat ?c) (drop (nat (sector_ofs offset)) (view st (byte_to_sector ino offset))), st1)"
        "data_inv st1" "view st1 = view st" by blast
      let ?bytes = "take (nat ?c) (drop (nat (sector_ofs offset)) (view st (byte_to_sector ino offset)))"
      have bytes: "?bytes = map (\<lambda>k. file_byte (view st) ino (offset + int k)) [0..<nat ?c]"
        by (rule chunk_read [OF "1.prems"(1,3)]) (use c cf(2,3) in simp_all)
      let ?N' = "min (sz - ?c) (max 0 (inode_length ino - (offset + ?c)))"
      have p3: "0 \<le> offset + ?c" using "1.prems"(3) c by simp
      have p5: "- (2 ^ 31) \<le> inode_length ino - (offset + ?c)" using cf(2) by simp
      have p6: "0 \<le> sz - ?c" using le by simp
      have p7: "0 \<le> n + ?c" using "1.prems"(7) c by simp
      have p8: "n + ?c + (sz - ?c) < 2 ^ 31" using "1.prems"(8) by simp
      from "1.IH" [OF pos False r(1) HOL.refl, unfolded cf(4,5,6), OF r(2) "1.prems"(2) p3 "1.prems"(4) p5 p6 p7 p8]
      obtain st' where ih: "read_loop st1 ino (sz - ?c) (offset + ?c) (n + ?c) (buf @ ?bytes)
            = Some (n + ?c + ?N',
                    (buf @ ?bytes) @ map (\<lambda>k. file_byte (view st1) ino (offset + ?c + int k)) [0..<nat ?N'],
                    st')"
        "data_inv st'" "view st' = view st1" "same_inodes st1 st'" by blast
      have step: "read_loop st ino sz offset n buf = read_loop st1 ino (sz - ?c) (offset + ?c) (n + ?c) (buf @ ?bytes)"
        using pos False r(1) by (subst read_loop.simps) (simp add: cf(4,5,6))
      have cnt: "?c + ?N' = ?N" by (rule count_step [OF r32 c])
      have N'0: "0 \<le> ?N'" using p6 by simp
      have natN: "nat ?N = nat ?c + nat ?N'"
        using cnt c N'0 by (simp add: nat_add_distrib [symmetric])
      have "map (\<lambda>k. file_byte (view st) ino (offset + int k)) [0..<nat ?N]
          = map (\<lambda>k. file_byte (view st) ino (offset + int k)) [0..<nat ?c]
            @ map (\<lambda>k. file_byte (view st) ino (offset + int (nat ?c + k))) [0..<nat ?N']"
        unfolding natN by (rule upt_map_split)
      also have "\<dots> = ?bytes @ map (\<lambda>k. file_byte (view st1) ino (offset + ?c + int k)) [0..<nat ?N']"
        using c by (simp add: bytes r(3) add.assoc)
      finally have bufeq: "buf @ map (\<lambda>k. file_byte (view st) ino (offset + int k)) [0..<nat ?N]
          = (buf @ ?bytes) @ map (\<lambda>k. file_byte (view st1) ino (offset + ?c + int k)) [0..<nat ?N']"
        by simp
      have fr: "same_inodes st st'"
        by (rule same_inodes_trans [OF cache_disk_read_frame [OF r(1)] ih(4)])
      have "read_loop st ino sz offset n buf
          = Some (n + ?N, buf @ map (\<lambda>k. file_byte (view st) ino (offset + int k)) [0..<nat ?N], st')"
        unfolding step ih(1) bufeq using cnt by simp
      with ih(2,3) r(3) fr show ?thesis by simp
    qed
  qed
qed


text \<open>Which bytes of which sectors a range of file positions occupies.\<close>

lemma touches_later:
  assumes "touches ino (offset + c) m s i" "0 \<le> c"
  shows "touches ino offset (c + m) s i"
proof -
  from assms(1) obtain pos where p: "offset + c \<le> pos" "pos < offset + c + m"
    "byte_to_sector ino pos = s" "nat (sector_ofs pos) = i" unfolding touches_def by blast
  from p(1,2) assms(2) have "offset \<le> pos" "pos < offset + (c + m)" by simp_all
  with p(3,4) show ?thesis unfolding touches_def by blast
qed

lemma chunk_touches:
  assumes o: "0 \<le> offset" and c: "offset mod 512 + c \<le> 512" "offset + c \<le> inode_length ino"
    and i: "nat (sector_ofs offset) \<le> i" "i < nat (sector_ofs offset) + nat c"
  shows "touches ino offset c (byte_to_sector ino offset) i"
proof -
  note so = sector_ofs_nonneg [OF o]
  let ?k = "int i - sector_ofs offset"
  from i so(2) have k: "0 \<le> ?k" "?k < c" by simp_all
  with c so(1) have k': "offset mod 512 + ?k < 512" "offset + ?k < inode_length ino" by simp_all
  note cp = chunk_positions [OF o k(1) k']
  from cp(2) have "nat (sector_ofs (offset + ?k)) = i" by simp
  moreover from k have "offset \<le> offset + ?k" "offset + ?k < offset + c" by simp_all
  ultimately show ?thesis using cp(1) unfolding touches_def by blast
qed

lemma later_not_touches:
  assumes o: "0 \<le> offset" and k: "0 \<le> k" "k < c"
    and c: "offset mod 512 + c \<le> 512" "offset + c + m \<le> inode_length ino" "0 \<le> m"
    and l: "inode_length ino < 2 ^ 31"
  shows "\<not> touches ino (offset + c) m (byte_to_sector ino offset) (nat (sector_ofs offset + k))"
proof
  assume "touches ino (offset + c) m (byte_to_sector ino offset) (nat (sector_ofs offset + k))"
  then obtain pos where p: "offset + c \<le> pos" "pos < offset + c + m"
    "byte_to_sector ino pos = byte_to_sector ino offset"
    "nat (sector_ofs pos) = nat (sector_ofs offset + k)" unfolding touches_def by blast
  from k c have k': "offset mod 512 + k < 512" "offset + k < inode_length ino" by simp_all
  note cp = chunk_positions [OF o k(1) k']
  from o k(1) have a: "0 \<le> offset + k" by simp
  from o k p(1) have b: "0 \<le> pos" by simp
  from p(2) c(2) have b': "pos < inode_length ino" by simp
  have "offset + k = pos"
    by (rule position_inj [OF a k'(2) b b' l]) (simp_all add: cp p(3,4))
  with p(1) k(2) show False by simp
qed

lemma chunk_written:
  assumes len: "length buf = 512" and fit: "ofs + c \<le> 512" and src: "n + c \<le> length src"
    and i: "i < 512"
  shows "patch buf ofs (take c (drop n src)) ! i
           = (if ofs \<le> i \<and> i < ofs + c then src ! (n + (i - ofs)) else buf ! i)"
proof -
  have lc: "length (take c (drop n src)) = c" using src by simp
  have "patch buf ofs (take c (drop n src)) ! i
      = (if ofs \<le> i \<and> i < ofs + length (take c (drop n src))
         then take c (drop n src) ! (i - ofs) else buf ! i)"
    by (rule nth_patch) (use len fit i lc in simp_all)
  also have "\<dots> = (if ofs \<le> i \<and> i < ofs + c then src ! (n + (i - ofs)) else buf ! i)"
    unfolding lc using src by auto
  finally show ?thesis .
qed

lemma write_loop_content:
  "data_inv st \<Longrightarrow> file_on_device ino \<Longrightarrow> 0 \<le> offset \<Longrightarrow> inode_length ino < 2 ^ 31 \<Longrightarrow>
   - (2 ^ 31) \<le> inode_length ino - offset \<Longrightarrow> 0 \<le> sz \<Longrightarrow> 0 \<le> n \<Longrightarrow> n + sz < 2 ^ 31 \<Longrightarrow>
   n + sz \<le> int (length src) \<Longrightarrow>
     \<exists>st'. write_loop st ino src sz offset n
              = Some (n + min sz (max 0 (inode_length ino - offset)), st')
        \<and> data_inv st' \<and> same_inodes st st'
        \<and> (\<forall>pos. offset \<le> pos \<and> pos < offset + min sz (max 0 (inode_length ino - offset)) \<longrightarrow>
              file_byte (view st') ino pos = src ! nat (n + (pos - offset)))
        \<and> (\<forall>s i. i < 512 \<and> \<not> touches ino offset (min sz (max 0 (inode_length ino - offset))) s i \<longrightarrow>
              view st' s ! i = view st s ! i)"
proof (induction st ino src sz offset n rule: write_loop.induct)
  case (1 st ino src sz offset n)
  let ?c = "chunk_size ino sz offset"
  let ?N = "min sz (max 0 (inode_length ino - offset))"
  let ?s0 = "byte_to_sector ino offset"
  let ?ofs = "sector_ofs offset"
  note inv = "1.prems"(1) and dev = "1.prems"(2) and o = "1.prems"(3) and l = "1.prems"(4)
    and u = "1.prems"(5) and n = "1.prems"(7,8) and fits = "1.prems"(9)
  have r32: "int32 (inode_length ino - offset)"
    using o l u by (simp add: int32_def)
  have refl: "same_inodes st st" by (simp add: same_inodes_def)
  show ?case
  proof (cases "0 < sz")
    case False
    with "1.prems"(6) have z: "sz = 0" by simp
    have "write_loop st ino src sz offset n = Some (n, st)"
      using False by (subst write_loop.simps) simp
    moreover have "?N = 0" using z by simp
    ultimately show ?thesis using inv refl by auto
  next
    case True
    note pos = this
    show ?thesis
    proof (cases "?c \<le> 0")
      case True
      have "write_loop st ino src sz offset n = Some (n, st)"
        using pos True by (subst write_loop.simps) simp
      moreover have "?N = 0" by (rule count_stop [OF o pos r32 True])
      ultimately show ?thesis using inv refl by auto
    next
      case False
      then have c: "0 < ?c" by simp
      from n pos have szb: "sz < 2 ^ 31" by simp
      note cf = chunk_facts [OF o l u szb n c]
      note so = sector_ofs_nonneg [OF o]
      have le: "?c \<le> sz" by (rule chunk_size_le)
      from dev o cf(7) have s0: "?s0 \<noteq> NO_SECTOR" by (simp add: file_on_device_def)
      from n(1) c le fits have fit1: "nat ?c \<le> length (drop (nat n) src)" by simp
      from cache_disk_write_view [OF inv s0 chunk_in_slot [OF o c] fit1]
      obtain st1 where w: "cache_disk_write st ?s0 (drop (nat n) src) ?ofs ?c = Some st1"
        "data_inv st1"
        "view st1 = (view st)(?s0 := patch (view st ?s0) (nat ?ofs) (take (nat ?c) (drop (nat n) src)))"
        by blast
      let ?N' = "min (sz - ?c) (max 0 (inode_length ino - (offset + ?c)))"
      have p3: "0 \<le> offset + ?c" using o c by simp
      have p5: "- (2 ^ 31) \<le> inode_length ino - (offset + ?c)" using cf(2) by simp
      have p6: "0 \<le> sz - ?c" using le by simp
      have p7: "0 \<le> n + ?c" using n(1) c by simp
      have p8: "n + ?c + (sz - ?c) < 2 ^ 31" using n(2) by simp
      have p9: "n + ?c + (sz - ?c) \<le> int (length src)" using fits by simp
      from "1.IH" [OF pos False w(1), unfolded cf(4,5,6), OF w(2) dev p3 l p5 p6 p7 p8 p9]
      obtain st' where ih: "write_loop st1 ino src (sz - ?c) (offset + ?c) (n + ?c) = Some (n + ?c + ?N', st')"
        "data_inv st'" "same_inodes st1 st'"
        "\<And>pos. offset + ?c \<le> pos \<Longrightarrow> pos < offset + ?c + ?N' \<Longrightarrow>
            file_byte (view st') ino pos = src ! nat (n + ?c + (pos - (offset + ?c)))"
        "\<And>s i. i < 512 \<Longrightarrow> \<not> touches ino (offset + ?c) ?N' s i \<Longrightarrow> view st' s ! i = view st1 s ! i"
        by blast
      have step: "write_loop st ino src sz offset n = write_loop st1 ino src (sz - ?c) (offset + ?c) (n + ?c)"
        using pos False w(1) by (subst write_loop.simps) (simp add: cf(4,5,6))
      have cnt: "?c + ?N' = ?N" by (rule count_step [OF r32 c])
      have N'0: "0 \<le> ?N'" using p6 by simp
      have Nle: "offset + ?c + ?N' \<le> inode_length ino"
      proof -
        have "?N \<le> inode_length ino - offset" using cf(7) by simp
        with cnt show ?thesis by simp
      qed
      have cfit: "offset mod 512 + ?c \<le> 512" using cf(3) by simp
      have cend: "offset + ?c \<le> inode_length ino" using cf(2) by simp
      have vlen: "length (view st ?s0) = 512"
        using view_length [OF inv] by (simp add: DISK_SECTOR_SIZE_def)
      have nfit: "nat ?ofs + nat ?c \<le> 512" using so cfit c by simp
      have sfit: "nat n + nat ?c \<le> length src" using n(1) c le fits by simp
      have v1: "view st1 ?s0 ! i
          = (if nat ?ofs \<le> i \<and> i < nat ?ofs + nat ?c then src ! (nat n + (i - nat ?ofs)) else view st ?s0 ! i)"
        if "i < 512" for i
        unfolding w(3) using chunk_written [OF vlen nfit sfit that] by simp
      have v1': "view st1 s = view st s" if "s \<noteq> ?s0" for s
        unfolding w(3) using that by simp
      have W1: "file_byte (view st') ino p = src ! nat (n + (p - offset))"
        if p: "offset \<le> p" "p < offset + ?N" for p
      proof (cases "p < offset + ?c")
        case True
        let ?k = "p - offset"
        from p(1) True have k: "0 \<le> ?k" "?k < ?c" by simp_all
        with cfit cend have k': "offset mod 512 + ?k < 512" "offset + ?k < inode_length ino" by simp_all
        note cp = chunk_positions [OF o k(1) k']
        have e: "offset + ?k = p" by simp
        have i: "nat (?ofs + ?k) < 512" using so k(1) k'(1) by simp
        have nt: "\<not> touches ino (offset + ?c) ?N' ?s0 (nat (?ofs + ?k))"
          by (rule later_not_touches [OF o k cfit Nle N'0 l])
        have ni: "nat (?ofs + ?k) = nat ?ofs + nat ?k" using so(2) k(1) by (simp add: nat_add_distrib)
        have "file_byte (view st') ino p = view st' ?s0 ! nat (?ofs + ?k)"
          using cp unfolding e by (simp add: file_byte_def)
        also have "\<dots> = view st1 ?s0 ! nat (?ofs + ?k)" by (rule ih(5) [OF i nt])
        also have "\<dots> = src ! (nat n + nat ?k)"
          using v1 [OF i] k unfolding ni by simp
        also have "nat n + nat ?k = nat (n + ?k)" using n(1) k(1) by (simp add: nat_add_distrib)
        finally show ?thesis .
      next
        case False
        then have a: "offset + ?c \<le> p" by simp
        from p(2) cnt have b: "p < offset + ?c + ?N'" by simp
        have "n + ?c + (p - (offset + ?c)) = n + (p - offset)" by simp
        with ih(4) [OF a b] show ?thesis by simp
      qed
      have W2: "view st' s ! i = view st s ! i" if i: "i < 512" and nt: "\<not> touches ino offset ?N s i" for s i
      proof -
        have "\<not> touches ino (offset + ?c) ?N' s i"
        proof
          assume "touches ino (offset + ?c) ?N' s i"
          from touches_later [OF this] c have "touches ino offset (?c + ?N') s i" by simp
          with nt cnt show False by simp
        qed
        from ih(5) [OF i this] have a: "view st' s ! i = view st1 s ! i" .
        have "view st1 s ! i = view st s ! i"
        proof (cases "s = ?s0")
          case False
          from v1' [OF this] show ?thesis by simp
        next
          case True
          have "\<not> (nat ?ofs \<le> i \<and> i < nat ?ofs + nat ?c)"
          proof
            assume "nat ?ofs \<le> i \<and> i < nat ?ofs + nat ?c"
            then have "touches ino offset ?c ?s0 i" using chunk_touches [OF o cfit cend] by blast
            then obtain q where q: "offset \<le> q" "q < offset + ?c" "byte_to_sector ino q = ?s0"
              "nat (sector_ofs q) = i" unfolding touches_def by blast
            from q(2) cnt N'0 have "q < offset + ?N" by simp
            with q(1,3,4) True have "touches ino offset ?N s i" unfolding touches_def by blast
            with nt show False by simp
          qed
          with v1 [OF i] True show ?thesis by simp
        qed
        with a show ?thesis by simp
      qed
      have fr: "same_inodes st st'"
        by (rule same_inodes_trans [OF cache_disk_write_frame [OF w(1)] ih(3)])
      have res: "write_loop st ino src sz offset n = Some (n + ?N, st')"
        unfolding step ih(1) using cnt by simp
      from res ih(2) fr W1 W2 show ?thesis by blast
    qed
  qed
qed


lemma read_loop_nothing:
  "sz \<le> 0 \<Longrightarrow> read_loop st ino sz offset n buf = Some (n, buf, st)"
  by (subst read_loop.simps) simp

lemma write_loop_nothing:
  "sz \<le> 0 \<Longrightarrow> write_loop st ino src sz offset n = Some (n, st)"
  by (subst write_loop.simps) simp

lemma count_forms:
  "0 \<le> sz \<Longrightarrow> min sz (max 0 (l - offset)) = max 0 (min sz (l - offset))" for sz l offset :: int
  by (simp add: min_def max_def)

lemma take_as_map: "n \<le> length xs \<Longrightarrow> map (\<lambda>k. xs ! k) [0..<n] = take n xs"
  by (rule nth_equalityI) simp_all

lemma inode_read_at_content:
  assumes inv: "data_inv st" and p: "inode_heap st p = Some ino" and dev: "file_on_device ino"
    and sz: "int32 sz" and o: "0 \<le> offset" and l: "int32 (inode_length ino)"
    and u: "int32 (inode_length ino - offset)"
  shows "\<exists>st'. inode_read_at st p sz offset
            = Some (max 0 (min sz (inode_length ino - offset)),
                    map (\<lambda>k. file_byte (view st) ino (offset + int k))
                      [0..<nat (max 0 (min sz (inode_length ino - offset)))],
                    st')
           \<and> data_inv st' \<and> view st' = view st \<and> same_inodes st st'"
proof (cases "0 \<le> sz")
  case True
  from l have l': "inode_length ino < 2 ^ 31" by (simp add: int32_def)
  from u have u': "- (2 ^ 31) \<le> inode_length ino - offset" by (simp add: int32_def)
  from sz have s': "0 + sz < 2 ^ 31" by (simp add: int32_def)
  have z: "(0::int) \<le> 0" by simp
  from read_loop_content [OF inv dev o l' u' True z s', of "[]"] p count_forms [OF True, of "inode_length ino" offset]
  show ?thesis by (simp add: inode_read_at_def)
next
  case False
  then have "read_loop st ino sz offset 0 [] = Some (0, [], st)" by (simp add: read_loop_nothing)
  moreover from False have "max 0 (min sz (inode_length ino - offset)) = 0" by simp
  ultimately show ?thesis using p inv by (simp add: inode_read_at_def same_inodes_def)
qed

lemma inode_write_at_content:
  assumes inv: "data_inv st" and p: "inode_heap st p = Some ino" and dev: "file_on_device ino"
    and sz: "int32 sz" and o: "0 \<le> offset" and l: "int32 (inode_length ino)"
    and u: "int32 (inode_length ino - offset)"
    and w: "deny_write_cnt ino = 0" "sz \<le> int (length src)"
  shows "\<exists>st'. inode_write_at st p src sz offset = Some (max 0 (min sz (inode_length ino - offset)), st')
           \<and> data_inv st'
           \<and> (\<forall>k < nat (max 0 (min sz (inode_length ino - offset))).
                 file_byte (view st') ino (offset + int k) = src ! k)
           \<and> (\<forall>s i. i < 512 \<and> \<not> touches ino offset (max 0 (min sz (inode_length ino - offset))) s i \<longrightarrow>
                 view st' s ! i = view st s ! i)
           \<and> (\<exists>st''. inode_read_at st' p sz offset
                  = Some (max 0 (min sz (inode_length ino - offset)),
                          take (nat (max 0 (min sz (inode_length ino - offset)))) src, st''))"
proof -
  let ?N = "max 0 (min sz (inode_length ino - offset))"
  have "\<exists>st'. inode_write_at st p src sz offset = Some (?N, st') \<and> data_inv st' \<and> same_inodes st st'
           \<and> (\<forall>k < nat ?N. file_byte (view st') ino (offset + int k) = src ! k)
           \<and> (\<forall>s i. i < 512 \<and> \<not> touches ino offset ?N s i \<longrightarrow> view st' s ! i = view st s ! i)"
  proof (cases "0 \<le> sz")
    case True
    from l have l': "inode_length ino < 2 ^ 31" by (simp add: int32_def)
    from u have u': "- (2 ^ 31) \<le> inode_length ino - offset" by (simp add: int32_def)
    from sz have s': "0 + sz < 2 ^ 31" by (simp add: int32_def)
    have z: "(0::int) \<le> 0" by simp
    from w(2) have f: "0 + sz \<le> int (length src)" by simp
    note cf = count_forms [OF True, of "inode_length ino" offset]
    from write_loop_content [OF inv dev o l' u' True z s' f, unfolded cf]
    obtain st' where r: "write_loop st ino src sz offset 0 = Some (0 + ?N, st')"
      "data_inv st'" "same_inodes st st'"
      "\<And>pos. offset \<le> pos \<Longrightarrow> pos < offset + ?N \<Longrightarrow>
          file_byte (view st') ino pos = src ! nat (0 + (pos - offset))"
      "\<And>s i. i < 512 \<Longrightarrow> \<not> touches ino offset ?N s i \<Longrightarrow> view st' s ! i = view st s ! i"
      by blast
    have "file_byte (view st') ino (offset + int k) = src ! k" if "k < nat ?N" for k
    proof -
      from that have "offset \<le> offset + int k" "offset + int k < offset + ?N" by simp_all
      from r(4) [OF this] show ?thesis by simp
    qed
    with r(1,2,3,5) p w(1) show ?thesis by (simp add: inode_write_at_def)
  next
    case False
    then have "write_loop st ino src sz offset 0 = Some (0, st)" by (simp add: write_loop_nothing)
    moreover from False have "?N = 0" by simp
    ultimately show ?thesis using p inv w(1) by (simp add: inode_write_at_def same_inodes_def)
  qed
  then obtain st' where r: "inode_write_at st p src sz offset = Some (?N, st')"
    "data_inv st'" "same_inodes st st'"
    "\<And>k. k < nat ?N \<Longrightarrow> file_byte (view st') ino (offset + int k) = src ! k"
    "\<And>s i. i < 512 \<Longrightarrow> \<not> touches ino offset ?N s i \<Longrightarrow> view st' s ! i = view st s ! i"
    by blast
  from r(3) p have p': "inode_heap st' p = Some ino" by (simp add: same_inodes_def)
  from inode_read_at_content [OF r(2) p' dev sz o l u]
  obtain st'' where rd: "inode_read_at st' p sz offset
      = Some (?N, map (\<lambda>k. file_byte (view st') ino (offset + int k)) [0..<nat ?N], st'')" by blast
  have "map (\<lambda>k. file_byte (view st') ino (offset + int k)) [0..<nat ?N] = map (\<lambda>k. src ! k) [0..<nat ?N]"
    by (rule map_cong [OF HOL.refl]) (simp add: r(4))
  also have "\<dots> = take (nat ?N) src"
    by (rule take_as_map) (use w(2) in simp)
  finally have "inode_read_at st' p sz offset = Some (?N, take (nat ?N) src, st'')"
    using rd by simp
  with r(1,2,4,5) show ?thesis by blast
qed

text \<open>
  Claim C6, amended. In a state of the cache that satisfies its invariant, for every open
  inode whose data lies in sectors of the device, every size, and every offset that is not
  negative and for which \<open>length - offset\<close> does not leave the 32 bits of \<open>off_t\<close> (no
  offset does when the length is not negative):
  \<^item> \<open>inode_read_at\<close> returns \<open>max 0 (min size (length - offset))\<close> and stores in the
    caller's buffer exactly that many bytes, those of the file from \<open>offset\<close> on, and no
    sector changes its contents (the contents of a sector are those of its slot when it
    is cached, those on the device otherwise);
  \<^item> \<open>inode_write_at\<close>, with deny-write count zero and a source buffer of at least \<open>size\<close>
    bytes, returns the same count; afterwards the file holds the first bytes of the
    source, as many as the count, from \<open>offset\<close> on, every other byte of every sector is
    as before, and \<open>inode_read_at\<close> with the same size and offset returns those bytes;
    both calls leave the cache in a state that satisfies its invariant;
  \<^item> each chunk is the minimum of the remaining size, the bytes left in the sector and the
    bytes left in the file;
  \<^item> for a size that is not negative the count is \<open>min size (max 0 (length - offset))\<close>;
  \<^item> for an inode of length 0, \<open>inode_read_at\<close> returns 0.
\<close>

theorem inode_rw_transfers_up_to_eof:
  assumes "data_inv st" and "inode_heap st p = Some ino" and "file_on_device ino"
    and "int32 sz" and "0 \<le> offset" and "int32 (inode_length ino)"
    and "int32 (inode_length ino - offset)"
  shows "(\<exists>st'. inode_read_at st p sz offset
            = Some (max 0 (min sz (inode_length ino - offset)),
                    map (\<lambda>k. file_byte (view st) ino (offset + int k))
                      [0..<nat (max 0 (min sz (inode_length ino - offset)))],
                    st')
            \<and> view st' = view st \<and> data_inv st')
       \<and> (deny_write_cnt ino = 0 \<and> sz \<le> int (length src) \<longrightarrow>
            (\<exists>st'. inode_write_at st p src sz offset = Some (max 0 (min sz (inode_length ino - offset)), st')
               \<and> data_inv st'
               \<and> (\<forall>k < nat (max 0 (min sz (inode_length ino - offset))).
                     file_byte (view st') ino (offset + int k) = src ! k)
               \<and> (\<forall>s i. i < 512 \<and> \<not> touches ino offset (max 0 (min sz (inode_length ino - offset))) s i \<longrightarrow>
                     view st' s ! i = view st s ! i)
               \<and> (\<exists>st''. inode_read_at st' p sz offset
                      = Some (max 0 (min sz (inode_length ino - offset)),
                              take (nat (max 0 (min sz (inode_length ino - offset)))) src, st''))))
       \<and> chunk_size ino sz offset = min sz (min (512 - offset mod 512) (inode_length ino - offset))
       \<and> (0 \<le> sz \<longrightarrow> max 0 (min sz (inode_length ino - offset)) = min sz (max 0 (inode_length ino - offset)))
       \<and> (inode_length ino = 0 \<longrightarrow> map_option fst (inode_read_at st p sz offset) = Some 0)"
proof -
  let ?N = "max 0 (min sz (inode_length ino - offset))"
  from inode_read_at_content [OF assms]
  obtain st1 where r: "inode_read_at st p sz offset
      = Some (?N, map (\<lambda>k. file_byte (view st) ino (offset + int k)) [0..<nat ?N], st1)"
    "view st1 = view st" "data_inv st1" by blast
  then have rd: "\<exists>st'. inode_read_at st p sz offset
            = Some (?N, map (\<lambda>k. file_byte (view st) ino (offset + int k)) [0..<nat ?N], st')
            \<and> view st' = view st \<and> data_inv st'" by blast
  have w: "\<exists>st'. inode_write_at st p src sz offset = Some (?N, st')
               \<and> data_inv st'
               \<and> (\<forall>k < nat ?N. file_byte (view st') ino (offset + int k) = src ! k)
               \<and> (\<forall>s i. i < 512 \<and> \<not> touches ino offset ?N s i \<longrightarrow> view st' s ! i = view st s ! i)
               \<and> (\<exists>st''. inode_read_at st' p sz offset = Some (?N, take (nat ?N) src, st''))"
    if "deny_write_cnt ino = 0 \<and> sz \<le> int (length src)"
    using inode_write_at_content [OF assms, of src] that by blast
  have c: "chunk_size ino sz offset = min sz (min (512 - offset mod 512) (inode_length ino - offset))"
    using sector_ofs_nonneg(1) [OF assms(5)] by (simp add: chunk_size_eq [OF assms(7)] min.commute)
  have z: "map_option fst (inode_read_at st p sz offset) = Some 0" if "inode_length ino = 0"
    using r(1) that assms(5) by (simp add: min_def max_def)
  have f: "?N = min sz (max 0 (inode_length ino - offset))" if "0 \<le> sz"
    using count_forms [OF that, of "inode_length ino" offset] by simp
  from rd w c z f show ?thesis by blast
qed


theorem inode_rw_transfers_up_to_eof_witness:
  "data_inv (example_file 600 0) \<and> inode_heap (example_file 600 0) 0 \<noteq> None
   \<and> file_on_device (the (inode_heap (example_file 600 0) 0))
   \<and> int32 1000 \<and> int32 (inode_length (the (inode_heap (example_file 600 0) 0)) - 100)
   \<and> map_option (\<lambda>r. (fst r, fst (snd r))) (inode_read_at (example_file 600 0) 0 1000 100)
        = Some (500, replicate 500 0)
   \<and> (\<exists>st'. inode_write_at (example_file 600 0) 0 (replicate 1000 7) 1000 100 = Some (500, st')
          \<and> file_byte (view st') (the (inode_heap (example_file 600 0) 0)) 100 = 7
          \<and> map_option (\<lambda>r. (fst r, fst (snd r))) (inode_read_at st' 0 1000 100)
               = Some (500, replicate 500 7))
   \<and> chunk_size (the (inode_heap (example_file 600 0) 0)) 1000 100 = 412
   \<and> map_option fst (inode_read_at (example_file 0 0) 0 1000 100) = Some 0"
proof -
  let ?ino = "\<lambda>len. \<lparr>i_sector = 10, open_cnt = 1, removed = False, deny_write_cnt = 0,
                      data = \<lparr>start = 20, length_bytes = len, magic = INODE_MAGIC\<rparr>\<rparr>"
  have inv: "data_inv (example_file len 0)" for len
    by (simp add: data_inv_def cache_inv_def pool_ok_def example_file_def inode_init_def
        DISK_SECTOR_SIZE_def)
  have h: "inode_heap (example_file len 0) 0 = Some (?ino len)" for len
    by (simp add: example_file_def)
  have nf: "find (\<lambda>bc. alloc bc \<and> sector bc = s) (BClist (example_file len 0)) = None" for s len
    by (simp add: find_None_iff example_file_def inode_init_def)
  have fd: "filesys_disk (example_file len 0) s = replicate 512 0" for s len
    by (simp add: example_file_def inode_init_def)
  have v: "view (example_file len 0) = (\<lambda>s. replicate 512 0)" for len
    by (rule ext) (simp add: view_def cached_def nf fd)
  have dev6: "file_on_device (?ino 600)"
    unfolding file_on_device_def
  proof (intro allI impI)
    fix pos :: int assume "0 \<le> pos \<and> pos < inode_length (?ino 600)"
    then have p: "0 \<le> pos" "pos < 600" "pos < inode_length (?ino 600)" by (simp_all add: inode_length_def)
    from p(2) have "pos \<le> 599" by simp
    from zdiv_mono1 [OF this, of 512] have "pos div 512 \<le> 1" by simp
    moreover from p(1) have "0 \<le> pos div 512" by (simp add: pos_imp_zdiv_nonneg_iff)
    ultimately have "pos div 512 = 0 \<or> pos div 512 = 1" by linarith
    then show "byte_to_sector (?ino 600) pos \<noteq> NO_SECTOR"
      unfolding byte_to_sector_in_file [OF p(1,3)] by (auto simp: NO_SECTOR_def)
  qed
  have dev0: "file_on_device (?ino 0)"
    by (auto simp: file_on_device_def inode_length_def)
  have i1: "int32 1000" "int32 (inode_length (?ino 600))" "int32 (inode_length (?ino 600) - 100)"
    "int32 (inode_length (?ino 0))" "int32 (inode_length (?ino 0) - 100)"
    by (simp_all add: int32_def inode_length_def)
  have o: "(0::int) \<le> 100" by simp
  note t6 = inode_rw_transfers_up_to_eof [OF inv [of 600] h [of 600] dev6 i1(1) o i1(2,3),
      where src = "replicate 1000 7"]
  note t0 = inode_rw_transfers_up_to_eof [OF inv [of 0] h [of 0] dev0 i1(1) o i1(4,5),
      where src = "replicate 1000 7"]
  have N: "max 0 (min 1000 (inode_length (?ino 600) - 100)) = 500" by (simp add: inode_length_def)
  have zero: "file_byte (\<lambda>s. replicate 512 0) (?ino 600) (100 + int k) = 0" for k
  proof -
    have "(0::int) \<le> 100 + int k" by simp
    from sector_ofs_nonneg(2,3) [OF this] show ?thesis by (simp add: file_byte_def)
  qed
  from t6 obtain st1 where "inode_read_at (example_file 600 0) 0 1000 100
      = Some (500, map (\<lambda>k. file_byte (view (example_file 600 0)) (?ino 600) (100 + int k)) [0..<nat 500], st1)"
    unfolding N by blast
  then have a: "map_option (\<lambda>r. (fst r, fst (snd r))) (inode_read_at (example_file 600 0) 0 1000 100)
        = Some (500, replicate 500 0)"
    by (simp add: v zero map_replicate_const)
  from t6 obtain st' st'' where w: "inode_write_at (example_file 600 0) 0 (replicate 1000 7) 1000 100 = Some (500, st')"
    "\<forall>k < nat 500. file_byte (view st') (?ino 600) (100 + int k) = replicate 1000 7 ! k"
    "inode_read_at st' 0 1000 100 = Some (500, take (nat 500) (replicate 1000 7), st'')"
    unfolding N by auto
  from w(2) [rule_format, of 0] have w2: "file_byte (view st') (?ino 600) 100 = 7" by simp
  from w(3) have w3: "map_option (\<lambda>r. (fst r, fst (snd r))) (inode_read_at st' 0 1000 100)
               = Some (500, replicate 500 7)" by simp
  from w(1) w2 w3 have b: "\<exists>st'. inode_write_at (example_file 600 0) 0 (replicate 1000 7) 1000 100 = Some (500, st')
          \<and> file_byte (view st') (?ino 600) 100 = 7
          \<and> map_option (\<lambda>r. (fst r, fst (snd r))) (inode_read_at st' 0 1000 100)
               = Some (500, replicate 500 7)" by blast
  from t6 have c: "chunk_size (?ino 600) 1000 100 = 412" by (simp add: inode_length_def)
  from t0 have d: "map_option fst (inode_read_at (example_file 0 0) 0 1000 100) = Some 0"
    by (simp add: inode_length_def)
  from inv [of 600] dev6 i1(1,3) a b c d show ?thesis unfolding h by simp
qed

text \<open>
  Where the count of claim C6 fails as first stated: with size \<open>-1\<close> the loop is not
  entered and 0 is returned, while \<open>min size (max 0 (length - offset))\<close> is \<open>-1\<close>; on an
  inode of length 0, a read of one byte at offset \<open>-512\<close> passes the test of
  \<open>byte_to_sector\<close>, reads the sector before the start sector and returns 1; and on an
  inode whose length is the least value of \<open>off_t\<close>, \<open>length - offset\<close> at offset 1 wraps
  around to the greatest, and a read of one byte there returns 1.
\<close>

theorem inode_read_at_negative_counterexample:
  "inode_read_at (example_file 600 0) 0 (- 1) 0 = Some (0, [], example_file 600 0)
   \<and> min (- 1) (max 0 (inode_length (the (inode_heap (example_file 600 0) 0)) - 0)) = - 1
   \<and> map_option fst (inode_read_at (example_file 0 0) 0 1 (- 512)) = Some 1
   \<and> map_option fst (inode_read_at (example_file (- 2147483648) 0) 0 1 1) = Some 1
   \<and> min 1 (max 0 (inode_length (the (inode_heap (example_file (- 2147483648) 0) 0)) - 1)) = 0"
proof -
  let ?ino = "\<lambda>len. \<lparr>i_sector = 10, open_cnt = 1, removed = False, deny_write_cnt = 0,
                      data = \<lparr>start = 20, length_bytes = len, magic = INODE_MAGIC\<rparr>\<rparr>"
  have s: "sized (example_file len 0)" for len
    by (simp add: example_file_def sized_def pool_ok_def inode_init_def DISK_SECTOR_SIZE_def)
  have h: "inode_heap (example_file len 0) 0 = Some (?ino len)" for len
    by (simp add: example_file_def)
  have a: "inode_read_at (example_file 600 0) 0 (- 1) 0 = Some (0, [], example_file 600 0)"
    by (simp add: inode_read_at_def h read_loop_nothing)
  have b: "min (- 1) (max 0 (inode_length (the (inode_heap (example_file 600 0) 0)) - 0)) = - 1"
    by (simp add: h inode_length_def)
  have wr: "wrap32 0 = 0" "wrap32 1 = 1" "wrap32 2 = 2" "wrap32 512 = 512" "wrap32 (- 511) = - 511"
    by (simp_all add: wrap32_id int32_def)
  have so: "sector_ofs (- 512) = 0" "sector_ofs 1 = 1"
    by (simp_all add: sector_ofs_def DISK_SECTOR_SIZE_def signed_modulo_int_def)
  have ch: "chunk_size (?ino 0) 1 (- 512) = 1"
    by (simp add: chunk_size_def Let_def so inode_length_def wr DISK_SECTOR_SIZE_def)
  have io: "in_slot 0 1" "in_slot 1 1" by (simp_all add: in_slot_def DISK_SECTOR_SIZE_def)
  from cache_disk_read_sized [OF s io(1), of 0 "byte_to_sector (?ino 0) (- 512)"]
  obtain bytes st1 where r: "cache_disk_read (example_file 0 0) (byte_to_sector (?ino 0) (- 512)) 0 1
      = Some (bytes, st1)" by blast
  have "read_loop (example_file 0 0) (?ino 0) 1 (- 512) 0 [] = read_loop st1 (?ino 0) 0 (- 511) 1 bytes"
    by (subst read_loop.simps) (simp add: ch so r wr)
  also have "\<dots> = Some (1, bytes, st1)" by (simp add: read_loop_nothing)
  finally have c: "map_option fst (inode_read_at (example_file 0 0) 0 1 (- 512)) = Some 1"
    by (simp add: inode_read_at_def h)
  have wm: "wrap32 (- 2147483649) = 2147483647"
    by (simp add: wrap32_def signed_take_bit_eq_take_bit_shift take_bit_eq_mod)
  have ch': "chunk_size (?ino (- 2147483648)) 1 1 = 1"
    by (simp add: chunk_size_def Let_def so inode_length_def wm DISK_SECTOR_SIZE_def)
  from cache_disk_read_sized [OF s io(2), of "- 2147483648" "byte_to_sector (?ino (- 2147483648)) 1"]
  obtain bytes' st2 where r': "cache_disk_read (example_file (- 2147483648) 0)
      (byte_to_sector (?ino (- 2147483648)) 1) 1 1 = Some (bytes', st2)" by blast
  have "read_loop (example_file (- 2147483648) 0) (?ino (- 2147483648)) 1 1 0 []
      = read_loop st2 (?ino (- 2147483648)) 0 2 1 bytes'"
    by (subst read_loop.simps) (simp add: ch' so r' wr)
  also have "\<dots> = Some (1, bytes', st2)" by (simp add: read_loop_nothing)
  finally have d: "map_option fst (inode_read_at (example_file (- 2147483648) 0) 0 1 1) = Some 1"
    by (simp add: inode_read_at_def h)
  have e: "min 1 (max 0 (inode_length (the (inode_heap (example_file (- 2147483648) 0) 0)) - 1)) = 0"
    by (simp add: h inode_length_def)
  from a b c d e show ?thesis by blast
qed

text \<open>
  Claim C7. For an open inode whose deny-write count is greater than zero,
  \<open>inode_write_at\<close> returns 0 for every buffer, size and offset, and the state (slot pool,
  cursor, device) is the one it was called in: no sector is read or written.
\<close>

theorem inode_write_at_denied:
  assumes "inode_heap st p = Some ino" and "0 < deny_write_cnt ino"
  shows "inode_write_at st p src sz offset = Some (0, st)"
  using assms by (simp add: inode_write_at_def)

theorem inode_write_at_denied_witness:
  "inode_heap (example_file 600 1) 0 \<noteq> None
   \<and> 0 < deny_write_cnt (the (inode_heap (example_file 600 1) 0))
   \<and> inode_write_at (example_file 600 1) 0 [1, 2, 3] 3 0 = Some (0, example_file 600 1)"
proof -
  have h: "inode_heap (example_file 600 1) 0 =
      Some \<lparr>i_sector = 10, open_cnt = 1, removed = False, deny_write_cnt = 1,
             data = \<lparr>start = 20, length_bytes = 600, magic = INODE_MAGIC\<rparr>\<rparr>"
    by (simp add: example_file_def)
  from inode_write_at_denied [OF h, where src = "[1, 2, 3]" and sz = 3 and offset = 0] h
  show ?thesis by simp
qed

subsection \<open>Creating an inode\<close>

lemma from_le32_le32: "from_le32 (le32 w) = w"
proof (rule bit_word_eqI)
  fix n assume "n < LENGTH(32)"
  then consider "n < 8" | "8 \<le> n" "n < 16" | "16 \<le> n" "n < 24" | "24 \<le> n" "n < 32"
    by fastforce
  then show "bit (from_le32 (le32 w)) n = bit w n"
    by cases (auto simp: from_le32_def le32_def bit_simps)
qed

lemma inode_disk_roundtrip:
  assumes "- (2 ^ 31) \<le> length_bytes d" "length_bytes d < 2 ^ 31"
  shows "inode_disk_of_bytes (inode_disk_bytes d) = d"
proof -
  have l: "length (le32 w) = 4" for w by (simp add: le32_def)
  have "sint (word_of_int (length_bytes d) :: 32 word) = length_bytes d"
    using assms by (simp add: sint_sbintrunc' signed_take_bit_int_eq_self)
  then show ?thesis
    by (simp add: inode_disk_of_bytes_def inode_disk_bytes_def l from_le32_le32)
qed

lemma length_inode_disk_bytes: "length (inode_disk_bytes d) = DISK_SECTOR_SIZE"
  by (simp add: inode_disk_bytes_def le32_def DISK_SECTOR_SIZE_def)

lemma DIV_ROUND_UP_ceiling:
  "DIV_ROUND_UP x step = \<lceil>real_of_int x / real_of_int step\<rceil>"
  by (simp add: DIV_ROUND_UP_def ceiling_divide_eq_div)

lemma zero_fill_run:
  "zero_fill st first js
     = run_ops st (map (\<lambda>i. WriteThrough (first + of_nat i) zeros 0 (int DISK_SECTOR_SIZE)) js)"
  by (induction js arbitrary: st) (auto split: option.splits)

lemma inode_create_run:
  assumes "0 \<le> len"
  shows "inode_create st sec len True (Some first)
           = map_option (Pair True) (run_ops st (create_writes sec len first))"
  using assms
  by (auto simp: inode_create_def create_writes_def zero_fill_run Let_def split: option.splits)

lemma create_writes_in_contract: "list_all op_in_contract (create_writes sec len first)"
  by (simp add: create_writes_def list_all_iff in_slot_def length_inode_disk_bytes zeros_def)

lemma bytes_to_sectors_ceiling:
  assumes "0 \<le> len"
  shows "bytes_to_sectors len = nat \<lceil>real_of_int len / 512\<rceil>"
proof -
  have "0 \<le> \<lceil>real_of_int len / 512\<rceil>" using assms by simp
  then show ?thesis
    by (simp add: bytes_to_sectors_def DIV_ROUND_UP_ceiling DISK_SECTOR_SIZE_def)
qed

text \<open>
  Claim C9, amended. \<open>inode_create (sector, length)\<close> with \<open>length >= 0\<close>, in a state of the
  cache that satisfies its invariant: when \<open>calloc\<close> or \<open>free_map_allocate\<close> fails it
  returns false and the state is unchanged, so nothing is written; otherwise it returns
  true after these calls into the cache, in this order: first the descriptor (start
  sector, the given length, the magic constant, zero padding: 512 bytes) to the
  descriptor sector, then 512 zero bytes to each of the \<open>ceil (length / 512)\<close> data
  sectors from the start of the allocated run. The descriptor read back from its bytes
  carries the given length and the magic constant.
\<close>

theorem inode_create_descriptor_then_zeros:
  assumes "cache_inv st" and "0 \<le> len"
  shows "inode_create st sec len False allocated = Some (False, st)
       \<and> inode_create st sec len True None = Some (False, st)
       \<and> (\<exists>st'. inode_create st sec len True (Some first) = Some (True, st')
              \<and> run_ops st (create_writes sec len first) = Some st')
       \<and> map_option fst (inode_create st sec len calloc_ok allocated)
            = Some (calloc_ok \<and> allocated \<noteq> None)
       \<and> create_writes sec len first
            = WriteThrough sec (inode_disk_bytes \<lparr>start = first, length_bytes = len, magic = INODE_MAGIC\<rparr>) 0 512
              # map (\<lambda>i. WriteThrough (first + of_nat i) (replicate 512 0) 0 512)
                  [0..<nat \<lceil>real_of_int len / 512\<rceil>]
       \<and> length (inode_disk_bytes \<lparr>start = first, length_bytes = len, magic = INODE_MAGIC\<rparr>) = 512
       \<and> (len < 2 ^ 31 \<longrightarrow>
            inode_disk_of_bytes (inode_disk_bytes \<lparr>start = first, length_bytes = len, magic = INODE_MAGIC\<rparr>)
              = \<lparr>start = first, length_bytes = len, magic = INODE_MAGIC\<rparr>)"
proof -
  have a: "inode_create st sec len False allocated = Some (False, st)"
    using assms(2) by (simp add: inode_create_def)
  have b: "inode_create st sec len True None = Some (False, st)"
    using assms(2) by (simp add: inode_create_def)
  have c: "\<exists>st'. inode_create st sec len True (Some first) = Some (True, st')
              \<and> run_ops st (create_writes sec len first) = Some st'" for first
    using run_ops_Some [OF assms(1) create_writes_in_contract, of sec len first]
      inode_create_run [OF assms(2), of st sec first] by auto
  have d: "map_option fst (inode_create st sec len calloc_ok allocated)
            = Some (calloc_ok \<and> allocated \<noteq> None)"
  proof (cases calloc_ok)
    case False
    with a show ?thesis by simp
  next
    case True
    show ?thesis
    proof (cases allocated)
      case None
      with True b show ?thesis by simp
    next
      case (Some f)
      with True c [of f] show ?thesis by auto
    qed
  qed
  have e: "create_writes sec len first
            = WriteThrough sec (inode_disk_bytes \<lparr>start = first, length_bytes = len, magic = INODE_MAGIC\<rparr>) 0 512
              # map (\<lambda>i. WriteThrough (first + of_nat i) (replicate 512 0) 0 512)
                  [0..<nat \<lceil>real_of_int len / 512\<rceil>]"
    by (simp add: create_writes_def bytes_to_sectors_ceiling [OF assms(2)] zeros_def DISK_SECTOR_SIZE_def)
  have f: "length (inode_disk_bytes \<lparr>start = first, length_bytes = len, magic = INODE_MAGIC\<rparr>) = 512"
    by (simp add: length_inode_disk_bytes [unfolded DISK_SECTOR_SIZE_def])
  have g: "inode_disk_of_bytes (inode_disk_bytes \<lparr>start = first, length_bytes = len, magic = INODE_MAGIC\<rparr>)
              = \<lparr>start = first, length_bytes = len, magic = INODE_MAGIC\<rparr>" if "len < 2 ^ 31"
    by (rule inode_disk_roundtrip) (use assms(2) that in simp_all)
  from a b c [of first] d e f g show ?thesis by blast
qed

theorem inode_create_descriptor_then_zeros_witness:
  "cache_inv (example_file 0 0)
   \<and> inode_create (example_file 0 0) 10 600 False (Some 20) = Some (False, example_file 0 0)
   \<and> inode_create (example_file 0 0) 10 600 True None = Some (False, example_file 0 0)
   \<and> (\<exists>st'. inode_create (example_file 0 0) 10 600 True (Some 20) = Some (True, st')
          \<and> run_ops (example_file 0 0) (create_writes 10 600 20) = Some st')
   \<and> map (\<lambda>x. case x of WriteThrough s b ofs len \<Rightarrow> s | ReadThrough s ofs len \<Rightarrow> s) (create_writes 10 600 20)
        = [10, 20, 21]"
proof -
  have inv: "cache_inv (example_file 0 0)"
    by (simp add: cache_inv_def pool_ok_def example_file_def inode_init_def)
  have n: "nat \<lceil>(600::real) / 512\<rceil> = 2"
  proof -
    have "\<lceil>(600::real) / 512\<rceil> = 2" by (simp add: ceiling_eq_iff)
    then show ?thesis by simp
  qed
  have u: "[0..<2] = [0, 1]" by (simp add: upt_rec)
  have le: "(0::int) \<le> 600" by simp
  note th = inode_create_descriptor_then_zeros [OF inv le, of 10 "Some 20" 20 True]
  from th have a: "inode_create (example_file 0 0) 10 600 False (Some 20) = Some (False, example_file 0 0)"
    and b: "inode_create (example_file 0 0) 10 600 True None = Some (False, example_file 0 0)"
    and c: "\<exists>st'. inode_create (example_file 0 0) 10 600 True (Some 20) = Some (True, st')
          \<and> run_ops (example_file 0 0) (create_writes 10 600 20) = Some st'"
    by blast+
  from th have "create_writes 10 600 20
            = WriteThrough 10 (inode_disk_bytes \<lparr>start = 20, length_bytes = 600, magic = INODE_MAGIC\<rparr>) 0 512
              # map (\<lambda>i. WriteThrough (20 + of_nat i) (replicate 512 0) 0 512)
                  [0..<nat \<lceil>real_of_int 600 / 512\<rceil>]" by blast
  then have d: "map (\<lambda>x. case x of WriteThrough s b ofs len \<Rightarrow> s | ReadThrough s ofs len \<Rightarrow> s)
        (create_writes 10 600 20) = [10, 20, 21]"
    by (simp add: n u)
  from inv a b c d show ?thesis by blast
qed

text \<open>
  Where the order of claim C9 fails as first stated: on a fresh pool, creating an inode
  of 512 bytes with descriptor sector 10 and data sector 20 leaves sector 10 in slot 0
  and sector 20 in slot 1, since the descriptor is written first; zero-filling first
  would leave them the other way round.
\<close>

theorem inode_create_order_counterexample:
  "map_option (\<lambda>r. map sector (take 2 (BClist (snd r))))
      (inode_create (example_file 0 0) 10 512 True (Some 20)) = Some [10, 20]
   \<and> map_option (\<lambda>r. map sector (take 2 (BClist (snd r))))
      (inode_create_zero_fill_first (example_file 0 0) 10 512 True (Some 20)) = Some [20, 10]"
  by code_simp

subsection \<open>Opening and closing inodes\<close>





lemma registry_ok_reopened:
  assumes "registry_ok st" "inode_heap st p = Some ino" "0 \<le> k"
  shows "registry_ok (st\<lparr>inode_heap := (inode_heap st)(p \<mapsto> ino\<lparr>open_cnt := open_cnt ino + k\<rparr>)\<rparr>)"
  using assms unfolding registry_ok_def by (auto split: if_splits) fastforce+









section \<open>Properties of the frame table\<close>






text \<open>
  \<open>frame_free_page\<close> frees a frame entry that is still linked in \<open>frame_table\<close>. While that
  entry is the last of the list, a \<open>frame_get_page\<close> that makes a new frame entry has no
  defined result: obtaining a page, releasing its only reference and obtaining another
  page is such a sequence.
\<close>

lemma frame_get_page_after_free:
  "vm_run frame_init [GetPage (page_mapped 7 9), FreePage 9 7]
     = Some \<lparr>frame_table = [Freed 7], kpage_hash = Map.empty, palloc_freed = [7]\<rparr>
   \<and> frame_get_page \<lparr>frame_table = [Freed 7], kpage_hash = Map.empty, palloc_freed = [7]\<rparr>
         (page_mapped 8 9) = None
   \<and> vm_run frame_init [GetPage (page_mapped 7 9), FreePage 9 7, GetPage (page_mapped 8 9)] = None"
  by (simp add: frame_get_page_def frame_free_page_def frame_init_def page_mapped_def
      install_page_def dangling_back_def free_link_def)

lemma frame_get_page_defined:
  "(frame_get_page st ex = None)
     = (\<exists>kpage. palloc_get_page ex = Some kpage \<and> install_page ex
          \<and> (\<not> malloc_ok ex \<or> (kpage_hash st kpage = None \<and> dangling_back st)))"
  by (auto simp: frame_get_page_def split: option.splits)



text \<open>
  Claim C8. \<open>frame_get_page\<close> returns \<open>NULL\<close> and leaves the whole state as it was when
  \<open>palloc_get_page\<close> returns \<open>NULL\<close>. When a page is obtained and \<open>install_page\<close> fails, it
  returns \<open>NULL\<close>, the page just obtained is handed to \<open>palloc_free_page\<close>, and the index
  and the frame table are as before.
\<close>

theorem frame_get_page_failure:
  "(palloc_get_page ex = None \<longrightarrow> frame_get_page st ex = Some (None, st))
   \<and> (palloc_get_page ex = Some kpage \<and> \<not> install_page ex \<longrightarrow>
        (\<exists>st'. frame_get_page st ex = Some (None, st')
           \<and> palloc_freed st' = palloc_freed st @ [kpage]
           \<and> kpage_hash st' = kpage_hash st
           \<and> frame_table st' = frame_table st))"
  by (simp add: frame_get_page_def)

theorem frame_get_page_failure_witness:
  "frame_get_page frame_init
      \<lparr>palloc_get_page = None, pagedir_get_page = None, pagedir_set_page = True,
       malloc_ok = True, lookup_page = 9\<rparr> = Some (None, frame_init)
   \<and> frame_get_page frame_init
      \<lparr>palloc_get_page = Some 7, pagedir_get_page = Some 3, pagedir_set_page = True,
       malloc_ok = True, lookup_page = 9\<rparr> = Some (None, frame_init\<lparr>palloc_freed := [7]\<rparr>)
   \<and> frame_get_page frame_init
      \<lparr>palloc_get_page = Some 7, pagedir_get_page = None, pagedir_set_page = False,
       malloc_ok = True, lookup_page = 9\<rparr> = Some (None, frame_init\<lparr>palloc_freed := [7]\<rparr>)"
proof -
  let ?a = "\<lparr>palloc_get_page = None, pagedir_get_page = None, pagedir_set_page = True,
       malloc_ok = True, lookup_page = 9\<rparr>"
  let ?b = "\<lparr>palloc_get_page = Some 7, pagedir_get_page = Some 3, pagedir_set_page = True,
       malloc_ok = True, lookup_page = 9\<rparr>"
  let ?c = "\<lparr>palloc_get_page = Some 7, pagedir_get_page = None, pagedir_set_page = False,
       malloc_ok = True, lookup_page = 9\<rparr>"
  have e: "frame_table frame_init = []" "kpage_hash frame_init = Map.empty" "palloc_freed frame_init = []"
    by (simp_all add: frame_init_def)
  have fail: "\<not> install_page ?b" "\<not> install_page ?c" by (simp_all add: install_page_def)
  from frame_get_page_failure [of ?a frame_init 7]
  have a: "frame_get_page frame_init ?a = Some (None, frame_init)" by simp
  from frame_get_page_failure [of ?b frame_init 7] fail(1)
  obtain st' where b: "frame_get_page frame_init ?b = Some (None, st')"
    "palloc_freed st' = palloc_freed frame_init @ [7]" "kpage_hash st' = kpage_hash frame_init"
    "frame_table st' = frame_table frame_init" by auto
  from frame_get_page_failure [of ?c frame_init 7] fail(2)
  obtain st'' where c: "frame_get_page frame_init ?c = Some (None, st'')"
    "palloc_freed st'' = palloc_freed frame_init @ [7]" "kpage_hash st'' = kpage_hash frame_init"
    "frame_table st'' = frame_table frame_init" by auto
  from b(2-4) have "st' = frame_init\<lparr>palloc_freed := [7]\<rparr>" by (simp add: e frame_init_def)
  moreover from c(2-4) have "st'' = frame_init\<lparr>palloc_freed := [7]\<rparr>" by (simp add: e frame_init_def)
  ultimately show ?thesis using a b(1) c(1) by simp
qed

end
